theory Spec2Isabelle
  imports Main "HOL-Library.AList"
begin

section \<open>Strings, digits and decimal numerals\<close>

text \<open>
  A Python \<open>str\<close> is modelled as a \<open>string\<close>: a list of characters with code points
  below 256.  On these code points the regular-expression class \<open>\d\<close> is exactly
  \<open>0\<close>..\<open>9\<close> (code points 48..57).
\<close>

definition is_digit :: "char \<Rightarrow> bool" where
  "is_digit c = (48 \<le> (of_char c :: nat) \<and> (of_char c :: nat) \<le> 57)"

definition digit_val :: "char \<Rightarrow> nat" where
  "digit_val c = of_char c - 48"

definition digit_char :: "nat \<Rightarrow> char" where
  "digit_char d = ''0123456789'' ! d"

text \<open>\<open>str(n)\<close> for a non-negative integer: its decimal numeral, no leading zero.\<close>

fun str_nat :: "nat \<Rightarrow> string" where
  "str_nat n =
     (if n < 10 then [digit_char n] else str_nat (n div 10) @ [digit_char (n mod 10)])"

declare str_nat.simps [simp del]

text \<open>The value of a string of decimal digits, read left to right.\<close>

definition nat_of_digits :: "string \<Rightarrow> nat" where
  "nat_of_digits s = foldl (\<lambda>a c. 10 * a + digit_val c) 0 s"

text \<open>
  \<open>DIGITS.findall(name)\<close> with \<open>DIGITS = re.compile(r'(\d+)')\<close>: the matches of
  \<open>\d+\<close>, leftmost first, each as long as possible, none overlapping.
\<close>

function findall_digits :: "string \<Rightarrow> string list" where
  "findall_digits [] = []"
| "findall_digits (c # cs) =
     (if is_digit c
      then (c # takeWhile is_digit cs) # findall_digits (dropWhile is_digit cs)
      else findall_digits cs)"
  by pat_completeness auto
termination
  by (relation "measure length") (auto simp: le_imp_less_Suc length_dropWhile_le)

text \<open>\<open>''.join(nums)\<close>.\<close>

definition join_empty :: "string list \<Rightarrow> string" where
  "join_empty nums = concat nums"

text \<open>
  \<open>int(s)\<close> for a \<open>str\<close>, base ten: surrounding whitespace is stripped, one sign is
  allowed, and the digits may be grouped by single underscores.  Anything else raises
  \<open>ValueError\<close>, the only exception \<open>int\<close> raises on a \<open>str\<close>; it is the value
  \<open>None\<close> here.  The interpreter's optional cap on the length of the numeral (a
  run-time setting, by default far above the 255 bytes of a directory entry's name) is
  not part of the model.
\<close>

definition is_space :: "char \<Rightarrow> bool" where
  "is_space c = ((of_char c :: nat) \<in> {9, 10, 11, 12, 13, 28, 29, 30, 31, 32, 133, 160})"

definition strip :: "string \<Rightarrow> string" where
  "strip s = rev (dropWhile is_space (rev (dropWhile is_space s)))"

fun valid_numeral :: "string \<Rightarrow> bool" where
  "valid_numeral [] = False"
| "valid_numeral [c] = is_digit c"
| "valid_numeral (c # d # r) =
     (is_digit c \<and> (if d = CHR ''_'' then valid_numeral r else valid_numeral (d # r)))"

definition py_int :: "string \<Rightarrow> int option" where
  "py_int s =
     (let t = strip s;
          neg = (t \<noteq> [] \<and> hd t = CHR ''-'');
          body = (if t \<noteq> [] \<and> (hd t = CHR ''-'' \<or> hd t = CHR ''+'') then tl t else t)
      in if valid_numeral body
         then Some ((if neg then - 1 else 1) *
                    int (nat_of_digits (filter (\<lambda>c. c \<noteq> CHR ''_'') body)))
         else None)"

text \<open>
  The format specification \<open>06d\<close>: the decimal numeral, a minus sign first for a
  negative number, zeros inserted after the sign up to a total width of 6; a longer
  numeral is printed whole.
\<close>

definition zero_fill :: "nat \<Rightarrow> string \<Rightarrow> string" where
  "zero_fill w s = replicate (w - length s) (CHR ''0'') @ s"

definition format_06d :: "int \<Rightarrow> string" where
  "format_06d n =
     (if n < 0 then CHR ''-'' # zero_fill 5 (str_nat (nat (- n)))
      else zero_fill 6 (str_nat (nat n)))"

subsection \<open>\<open>extract_num6\<close>\<close>

definition extract_num6 :: "string \<Rightarrow> string option" where
  "extract_num6 name =
     (let nums = findall_digits name
      in if nums = [] then None
         else let s = join_empty nums
              in case py_int s of
                   None \<Rightarrow> None
                 | Some n \<Rightarrow> Some (format_06d n))"


section \<open>Paths and the file system\<close>

text \<open>
  A path is the list of its components below \<open>/\<close>.  The program only handles paths
  below the resolved root that \<open>rglob\<close> reached through real directories, so a path
  is a key of the file system as it stands; only a symbolic link in the last position is
  ever followed.  The file system is an association list in directory-listing order.
  A regular file carries an identifier of its content, a symbolic link its raw target,
  a directory whether entries may be created, removed or renamed in it.
\<close>

type_synonym path = "string list"

datatype node = File nat | Symlink string | Dir bool

type_synonym filesystem = "(path \<times> node) list"

datatype errno = ENOENT | EACCES | EEXIST | EISDIR | ENOTDIR | ELOOP | EINVAL | EBADF | EXDEV

text \<open>An \<open>OSError\<close> with its error number and the file names of its message.\<close>

datatype oserror = OSError errno string

text \<open>How the process ends when it does not reach the end of \<open>main\<close>.\<close>

datatype failure = Uncaught oserror | SystemExit nat

definition try_bind :: "'e + 'a \<Rightarrow> ('a \<Rightarrow> 'e + 'b) \<Rightarrow> 'e + 'b" where
  "try_bind m f = (case m of Inl e \<Rightarrow> Inl e | Inr x \<Rightarrow> f x)"

subsection \<open>\<open>pathlib\<close> and \<open>os.path\<close>\<close>

definition str_path :: "path \<Rightarrow> string" where
  "str_path p = (if p = [] then ''/'' else concat (map (\<lambda>c. CHR ''/'' # c) p))"

definition quote :: "string \<Rightarrow> string" where
  "quote s = CHR 0x27 # s @ [CHR 0x27]"

definition name_of :: "path \<Rightarrow> string" where
  "name_of p = (if p = [] then [] else last p)"

definition parent :: "path \<Rightarrow> path" where
  "parent p = butlast p"

definition with_name :: "path \<Rightarrow> string \<Rightarrow> path" where
  "with_name p n = butlast p @ [n]"

text \<open>\<open>name.rfind('.')\<close>: the last position of a dot.\<close>

fun rfind_dot :: "string \<Rightarrow> nat option" where
  "rfind_dot [] = None"
| "rfind_dot (c # cs) =
     (case rfind_dot cs of
        Some i \<Rightarrow> Some (Suc i)
      | None \<Rightarrow> if c = CHR ''.'' then Some 0 else None)"

definition suffix_of :: "path \<Rightarrow> string" where
  "suffix_of p =
     (let name = name_of p
      in case rfind_dot name of
           None \<Rightarrow> []
         | Some i \<Rightarrow> if 0 < i \<and> i < length name - 1 then drop i name else [])"

definition lower_char :: "char \<Rightarrow> char" where
  "lower_char c =
     (let k = (of_char c :: nat)
      in if (65 \<le> k \<and> k \<le> 90) \<or> (192 \<le> k \<and> k \<le> 222 \<and> k \<noteq> 215)
         then char_of (k + 32) else c)"

definition lower :: "string \<Rightarrow> string" where
  "lower s = map lower_char s"

text \<open>The pattern \<open>*.jpg\<close>, matched as written (the POSIX flavour keeps case).\<close>

definition fnmatch_jpg :: "string \<Rightarrow> bool" where
  "fnmatch_jpg name = (4 \<le> length name \<and> drop (length name - 4) name = ''.jpg'')"

fun commonprefix :: "path \<Rightarrow> path \<Rightarrow> path" where
  "commonprefix (x # xs) (y # ys) = (if x = y then x # commonprefix xs ys else [])"
| "commonprefix _ _ = []"

fun join_sep :: "string list \<Rightarrow> string" where
  "join_sep [] = []"
| "join_sep [c] = c"
| "join_sep (c # d # cs) = c @ CHR ''/'' # join_sep (d # cs)"

text \<open>\<open>os.path.relpath(path, start=start)\<close> on two absolute, normalised paths.\<close>

definition relpath :: "path \<Rightarrow> path \<Rightarrow> string" where
  "relpath p start =
     (let i = length (commonprefix start p);
          rel_list = replicate (length start - i) ''..'' @ drop i p
      in if rel_list = [] then ''.'' else join_sep rel_list)"

subsection \<open>Reading the file system\<close>

fun split_where :: "(char \<Rightarrow> bool) \<Rightarrow> string \<Rightarrow> string list" where
  "split_where P [] = [[]]"
| "split_where P (c # cs) =
     (if P c then [] # split_where P cs
      else (case split_where P cs of
              [] \<Rightarrow> [[c]]
            | r # rs \<Rightarrow> (c # r) # rs))"

text \<open>
  Path resolution from the directory \<open>cur\<close> along the components \<open>cs\<close>, following
  symbolic links: at most \<open>fuel\<close> of them (the kernel allows 40), after which the
  lookup fails with \<open>ELOOP\<close>.
\<close>

fun resolve :: "filesystem \<Rightarrow> nat \<Rightarrow> path \<Rightarrow> string list \<Rightarrow> errno + node" where
  "resolve fs fuel cur [] =
     (case map_of fs cur of None \<Rightarrow> Inl ENOENT | Some n \<Rightarrow> Inr n)"
| "resolve fs fuel cur (c # cs) =
     (if c = [] \<or> c = ''.'' then resolve fs fuel cur cs
      else if c = ''..'' then resolve fs fuel (butlast cur) cs
      else case map_of fs (cur @ [c]) of
             None \<Rightarrow> Inl ENOENT
           | Some (Dir w) \<Rightarrow> resolve fs fuel (cur @ [c]) cs
           | Some (File k) \<Rightarrow> if cs = [] then Inr (File k) else Inl ENOTDIR
           | Some (Symlink t) \<Rightarrow>
               if fuel = 0 then Inl ELOOP
               else if t = [] then Inl ENOENT
               else resolve fs (fuel - 1) (if hd t = CHR ''/'' then [] else cur)
                      (split_where (\<lambda>x. x = CHR ''/'') t @ cs))"

definition lstat :: "filesystem \<Rightarrow> path \<Rightarrow> errno + node" where
  "lstat fs p = (case map_of fs p of None \<Rightarrow> Inl ENOENT | Some n \<Rightarrow> Inr n)"

definition stat :: "filesystem \<Rightarrow> path \<Rightarrow> errno + node" where
  "stat fs p = (if p = [] then resolve fs 40 [] [] else resolve fs 40 (butlast p) [last p])"

text \<open>
  \<open>Path.exists\<close>, \<open>Path.is_file\<close>, \<open>Path.is_dir\<close> and \<open>Path.is_symlink\<close> answer
  \<open>False\<close> on the errors of \<open>_ignore_error\<close> and raise every other one.
\<close>

definition ignore_error :: "errno \<Rightarrow> bool" where
  "ignore_error e = (e = ENOENT \<or> e = ENOTDIR \<or> e = EBADF \<or> e = ELOOP)"

definition path_exists :: "filesystem \<Rightarrow> path \<Rightarrow> oserror + bool" where
  "path_exists fs p =
     (case stat fs p of
        Inr n \<Rightarrow> Inr True
      | Inl e \<Rightarrow> if ignore_error e then Inr False else Inl (OSError e (quote (str_path p))))"

definition is_file :: "filesystem \<Rightarrow> path \<Rightarrow> oserror + bool" where
  "is_file fs p =
     (case stat fs p of
        Inr n \<Rightarrow> Inr (case n of File k \<Rightarrow> True | _ \<Rightarrow> False)
      | Inl e \<Rightarrow> if ignore_error e then Inr False else Inl (OSError e (quote (str_path p))))"

definition is_dir :: "filesystem \<Rightarrow> path \<Rightarrow> oserror + bool" where
  "is_dir fs p =
     (case stat fs p of
        Inr n \<Rightarrow> Inr (case n of Dir w \<Rightarrow> True | _ \<Rightarrow> False)
      | Inl e \<Rightarrow> if ignore_error e then Inr False else Inl (OSError e (quote (str_path p))))"

definition is_symlink :: "filesystem \<Rightarrow> path \<Rightarrow> oserror + bool" where
  "is_symlink fs p =
     (case lstat fs p of
        Inr n \<Rightarrow> Inr (case n of Symlink t \<Rightarrow> True | _ \<Rightarrow> False)
      | Inl e \<Rightarrow> if ignore_error e then Inr False else Inl (OSError e (quote (str_path p))))"

definition os_readlink :: "filesystem \<Rightarrow> path \<Rightarrow> oserror + string" where
  "os_readlink fs p =
     (case map_of fs p of
        None \<Rightarrow> Inl (OSError ENOENT (quote (str_path p)))
      | Some (Symlink t) \<Rightarrow> Inr t
      | Some _ \<Rightarrow> Inl (OSError EINVAL (quote (str_path p))))"

text \<open>
  \<open>root.rglob("*.jpg")\<close>: nothing when the root is not a directory; otherwise every
  entry below the root whose name matches, each once.  The walk descends into
  directories only, never through a symbolic link, so the entries below the root are
  the keys that extend it.
\<close>

definition rglob_jpg :: "path \<Rightarrow> filesystem \<Rightarrow> path list" where
  "rglob_jpg root fs =
     (if is_dir fs root = Inr True
      then remdups (filter (\<lambda>p. length root < length p \<and> take (length root) p = root \<and>
                                 fnmatch_jpg (name_of p)) (map fst fs))
      else [])"

subsection \<open>Changing the file system\<close>

text \<open>
  Creating, removing or renaming an entry needs its directory, and write permission
  there.
\<close>

definition dir_check :: "filesystem \<Rightarrow> path \<Rightarrow> errno option" where
  "dir_check fs p =
     (case map_of fs (parent p) of
        None \<Rightarrow> Some ENOENT
      | Some (Dir w) \<Rightarrow> if w then None else Some EACCES
      | Some _ \<Rightarrow> Some ENOTDIR)"

definition os_unlink :: "filesystem \<Rightarrow> path \<Rightarrow> oserror + filesystem" where
  "os_unlink fs p =
     (case map_of fs p of
        None \<Rightarrow> Inl (OSError ENOENT (quote (str_path p)))
      | Some n \<Rightarrow>
          (case dir_check fs p of
             Some e \<Rightarrow> Inl (OSError e (quote (str_path p)))
           | None \<Rightarrow>
               (case n of
                  Dir w \<Rightarrow> Inl (OSError EISDIR (quote (str_path p)))
                | _ \<Rightarrow> Inr (AList.delete p fs))))"

definition os_symlink :: "filesystem \<Rightarrow> string \<Rightarrow> path \<Rightarrow> oserror + filesystem" where
  "os_symlink fs target p =
     (let names = quote target @ '' -> '' @ quote (str_path p)
      in case map_of fs p of
           Some n \<Rightarrow> Inl (OSError EEXIST names)
         | None \<Rightarrow>
             (case dir_check fs p of
                Some e \<Rightarrow> Inl (OSError e names)
              | None \<Rightarrow> Inr (AList.update p (Symlink target) fs)))"

text \<open>
  \<open>os.rename\<close> (POSIX): the entry moves to the new path and silently replaces a file
  or symbolic link found there.  Only the renaming of a non-directory is modelled, the
  one the program asks for; the model refuses to move a directory.
\<close>

definition os_rename :: "filesystem \<Rightarrow> path \<Rightarrow> path \<Rightarrow> oserror + filesystem" where
  "os_rename fs old new =
     (let names = quote (str_path old) @ '' -> '' @ quote (str_path new)
      in case map_of fs old of
           None \<Rightarrow> Inl (OSError ENOENT names)
         | Some n \<Rightarrow>
             (case dir_check fs old of
                Some e \<Rightarrow> Inl (OSError e names)
              | None \<Rightarrow>
                  (case dir_check fs new of
                     Some e \<Rightarrow> Inl (OSError e names)
                   | None \<Rightarrow>
                       if old = new then Inr fs
                       else (case n of
                               Dir w \<Rightarrow> Inl (OSError EXDEV names)
                             | _ \<Rightarrow>
                                 (case map_of fs new of
                                    Some (Dir w) \<Rightarrow> Inl (OSError EISDIR names)
                                  | _ \<Rightarrow> Inr (AList.update new n (AList.delete old fs)))))))"

section \<open>The program\<close>

text \<open>
  The world the program acts on: the file system and the lines written to standard
  output, one per call of \<open>print\<close>.
\<close>

record world =
  tree :: filesystem
  stdout :: "string list"

definition print :: "string \<Rightarrow> 'a world_scheme \<Rightarrow> 'a world_scheme" where
  "print s w = w\<lparr>stdout := stdout w @ [s]\<rparr>"

definition errno_number :: "errno \<Rightarrow> nat" where
  "errno_number e =
     (case e of ENOENT \<Rightarrow> 2 | EBADF \<Rightarrow> 9 | EACCES \<Rightarrow> 13 | EEXIST \<Rightarrow> 17 | EXDEV \<Rightarrow> 18
      | ENOTDIR \<Rightarrow> 20 | EISDIR \<Rightarrow> 21 | EINVAL \<Rightarrow> 22 | ELOOP \<Rightarrow> 40)"

definition strerror :: "errno \<Rightarrow> string" where
  "strerror e =
     (case e of ENOENT \<Rightarrow> ''No such file or directory'' | EBADF \<Rightarrow> ''Bad file descriptor''
      | EACCES \<Rightarrow> ''Permission denied'' | EEXIST \<Rightarrow> ''File exists''
      | EXDEV \<Rightarrow> ''Invalid cross-device link'' | ENOTDIR \<Rightarrow> ''Not a directory''
      | EISDIR \<Rightarrow> ''Is a directory'' | EINVAL \<Rightarrow> ''Invalid argument''
      | ELOOP \<Rightarrow> ''Too many levels of symbolic links'')"

definition str_error :: "oserror \<Rightarrow> string" where
  "str_error e =
     (case e of OSError n names \<Rightarrow>
        ''[Errno '' @ str_nat (errno_number n) @ ''] '' @ strerror n @ '': '' @ names)"

definition str_opt :: "string option \<Rightarrow> string" where
  "str_opt t = (case t of None \<Rightarrow> ''None'' | Some x \<Rightarrow> x)"

definition str_bool :: "bool \<Rightarrow> string" where
  "str_bool b = (if b then ''True'' else ''False'')"

subsection \<open>\<open>normalize_real_files\<close>\<close>

text \<open>The state of the first pass: the world and the two lists it returns.\<close>

record real_state = world +
  changes :: "(path \<times> path) list"
  conflicts :: "(path \<times> path) list"

text \<open>The body of the \<open>try\<close> of the scan, for one entry.\<close>

definition real_entry :: "path \<Rightarrow> real_state \<Rightarrow> oserror + real_state" where
  "real_entry p st =
     try_bind (is_symlink (tree st) p) (\<lambda>link.
       if link then Inr st
       else try_bind (is_file (tree st) p) (\<lambda>regular.
         if \<not> regular then Inr st
         else (case extract_num6 (name_of p) of
                 None \<Rightarrow>
                   Inr (print (''[WARN][REAL] No digits in filename, skip: '' @ str_path p) st)
               | Some num6 \<Rightarrow>
                   let newp = with_name p (num6 @ lower (suffix_of p))
                   in if name_of p = name_of newp then Inr st
                      else try_bind (path_exists (tree st) newp) (\<lambda>taken.
                        if taken
                        then Inr (print (''[CONFLICT][REAL] '' @ str_path p @ '' -> '' @
                                    str_path newp @ '' (target exists, skip rename)'')
                                  (st\<lparr>conflicts := conflicts st @ [(p, newp)]\<rparr>))
                        else Inr (st\<lparr>changes := changes st @ [(p, newp)]\<rparr>)))))"

text \<open>The scan: an exception of an entry is printed and the next entry is taken.\<close>

primrec scan_real_files :: "path list \<Rightarrow> real_state \<Rightarrow> real_state" where
  "scan_real_files [] st = st"
| "scan_real_files (p # ps) st =
     scan_real_files ps
       (case real_entry p st of
          Inr st' \<Rightarrow> st'
        | Inl e \<Rightarrow> print (''[ERROR][REAL] '' @ str_path p @ '': '' @ str_error e) st)"

text \<open>The second loop: no handler stands around \<open>old.rename(new)\<close>.\<close>

primrec perform_renames :: "bool \<Rightarrow> (path \<times> path) list \<Rightarrow> real_state \<Rightarrow> oserror + real_state" where
  "perform_renames dry_run [] st = Inr st"
| "perform_renames dry_run (c # cs) st =
     (let st1 = print (''[RENAME][REAL] '' @ str_path (fst c) @ '' -> '' @ str_path (snd c)) st
      in if dry_run then perform_renames dry_run cs st1
         else try_bind (os_rename (tree st1) (fst c) (snd c))
                (\<lambda>fs'. perform_renames dry_run cs (st1\<lparr>tree := fs'\<rparr>)))"

definition normalize_real_files :: "path \<Rightarrow> bool \<Rightarrow> world \<Rightarrow> oserror + real_state" where
  "normalize_real_files root dry_run w =
     (let st = scan_real_files (rglob_jpg root (tree w))
                 \<lparr>tree = tree w, stdout = stdout w, changes = [], conflicts = []\<rparr>
      in perform_renames dry_run (changes st) st)"

subsection \<open>\<open>fix_symlinks\<close>\<close>

record link_state = world +
  fixed :: "path list"
  retargeted :: "(path \<times> string) list"
  broken :: "(path \<times> string option \<times> path) list"

text \<open>
  Replacing the link (\<open>ln -snf rel p\<close>).  An exception leaves the world as the calls
  before it made it.
\<close>

definition retarget_link :: "bool \<Rightarrow> path \<Rightarrow> string \<Rightarrow> link_state \<Rightarrow> link_state \<times> oserror option" where
  "retarget_link dry_run p rel st =
     (if dry_run then (st\<lparr>retargeted := retargeted st @ [(p, rel)]\<rparr>, None)
      else (case try_bind (path_exists (tree st) p)
                   (\<lambda>found. if found then Inr True else is_symlink (tree st) p) of
              Inl e \<Rightarrow> (st, Some e)
            | Inr present \<Rightarrow>
                (case (if present then os_unlink (tree st) p else Inr (tree st)) of
                   Inl e \<Rightarrow> (st, Some e)
                 | Inr fs1 \<Rightarrow>
                     (case os_symlink fs1 rel p of
                        Inl e \<Rightarrow> (st\<lparr>tree := fs1\<rparr>, Some e)
                      | Inr fs2 \<Rightarrow>
                          (st\<lparr>tree := fs2, retargeted := retargeted st @ [(p, rel)]\<rparr>, None)))))"

text \<open>The body of the \<open>try\<close>, for one entry: the state it leaves and the exception, if any.\<close>

definition link_entry :: "bool \<Rightarrow> path \<Rightarrow> link_state \<Rightarrow> link_state \<times> oserror option" where
  "link_entry dry_run p st =
     (case is_symlink (tree st) p of
        Inl e \<Rightarrow> (st, Some e)
      | Inr link \<Rightarrow>
          if \<not> link then (st, None)
          else (case extract_num6 (name_of p) of
                  None \<Rightarrow>
                    (print (''[WARN][LINK] No digits in symlink name, skip: '' @ str_path p) st,
                     None)
                | Some num6 \<Rightarrow>
                    let target_canonical = with_name p (num6 @ lower (suffix_of p));
                        current_target =
                          (case os_readlink (tree st) p of Inl e \<Rightarrow> None | Inr t \<Rightarrow> Some t)
                    in (case try_bind (path_exists (tree st) target_canonical) (\<lambda>found.
                               if \<not> found then Inr False
                               else try_bind (is_file (tree st) target_canonical) (\<lambda>regular.
                                 if \<not> regular then Inr False
                                 else try_bind (is_symlink (tree st) target_canonical)
                                        (\<lambda>link'. Inr (\<not> link')))) of
                          Inl e \<Rightarrow> (st, Some e)
                        | Inr usable \<Rightarrow>
                            if usable
                            then let rel = relpath target_canonical (parent p)
                                 in if current_target \<noteq> Some rel
                                    then retarget_link dry_run p rel
                                           (print (''[RETARGET][LINK] '' @ str_path p @
                                                     '' -> '' @ rel) st)
                                    else (st\<lparr>fixed := fixed st @ [p]\<rparr>, None)
                            else (print (''[BROKEN][LINK] '' @ str_path p @ '' -> '' @
                                           str_opt current_target @ '' (missing '' @
                                           str_path target_canonical @ '')'')
                                    (st\<lparr>broken := broken st @
                                          [(p, current_target, target_canonical)]\<rparr>),
                                  None))))"

text \<open>
  The loop.  The entries are those of the tree the pass starts from: retargeting
  replaces a link by a link of the same name, so the walk finds the same names whether
  it lists a directory before or after the links in it are replaced.
\<close>

primrec fix_loop :: "bool \<Rightarrow> path list \<Rightarrow> link_state \<Rightarrow> link_state" where
  "fix_loop dry_run [] st = st"
| "fix_loop dry_run (p # ps) st =
     fix_loop dry_run ps
       (case link_entry dry_run p st of
          (st', None) \<Rightarrow> st'
        | (st', Some e) \<Rightarrow> print (''[ERROR][LINK] '' @ str_path p @ '': '' @ str_error e) st')"

definition fix_symlinks :: "path \<Rightarrow> bool \<Rightarrow> world \<Rightarrow> link_state" where
  "fix_symlinks root dry_run w =
     fix_loop dry_run (rglob_jpg root (tree w))
       \<lparr>tree = tree w, stdout = stdout w, fixed = [], retargeted = [], broken = []\<rparr>"

subsection \<open>\<open>main\<close>\<close>

text \<open>\<open>enumerate(broken[:20], 1)\<close>, one line for each.\<close>

fun broken_examples :: "nat \<Rightarrow> (path \<times> string option \<times> path) list \<Rightarrow> string list" where
  "broken_examples i [] = []"
| "broken_examples i ((link, cur, want) # bs) =
     (''  '' @ str_nat i @ ''. '' @ str_path link @ '' -> '' @ str_opt cur @
        '', expected '' @ str_path want) # broken_examples (Suc i) bs"

definition summary :: "real_state \<Rightarrow> link_state \<Rightarrow> string list" where
  "summary st1 st2 =
     [CHR 0x0A # ''== SUMMARY =='',
      ''Real file renames: '' @ str_nat (length (changes st1)),
      ''Real file conflicts (skipped): '' @ str_nat (length (conflicts st1)),
      ''Symlinks already correct: '' @ str_nat (length (fixed st2)),
      ''Symlinks retargeted: '' @ str_nat (length (retargeted st2)),
      ''Broken symlinks (missing targets): '' @ str_nat (length (broken st2))] @
     (if broken st2 \<noteq> []
      then (CHR 0x0A # ''Broken examples:'') # broken_examples 1 (take 20 (broken st2))
      else [])"

text \<open>
  The two passes as \<open>main\<close> calls them; \<open>root\<close> is the resolved root and \<open>apply\<close> the
  flag \<open>--apply\<close>.  A missing root ends the process with status 1.
\<close>

definition run :: "path \<Rightarrow> bool \<Rightarrow> filesystem \<Rightarrow> failure + (real_state \<times> link_state)" where
  "run root apply fs0 =
     (case path_exists fs0 root of
        Inl e \<Rightarrow> Inl (Uncaught e)
      | Inr found \<Rightarrow>
          if \<not> found then Inl (SystemExit 1)
          else let dry = \<not> apply;
                   w0 = print (''== Step 1: normalize real files under '' @ str_path root @
                                 '' (dry_run='' @ str_bool dry @ '') =='')
                          \<lparr>tree = fs0, stdout = []\<rparr>
               in (case normalize_real_files root dry w0 of
                     Inl e \<Rightarrow> Inl (Uncaught e)
                   | Inr st1 \<Rightarrow>
                       Inr (st1,
                            fix_symlinks root dry
                              (print (CHR 0x0A # ''== Step 2: fix symlinks to point to 6-digit files (dry_run=''
                                        @ str_bool dry @ '') =='')
                                 \<lparr>tree = tree st1, stdout = stdout st1\<rparr>))))"

definition main :: "path \<Rightarrow> bool \<Rightarrow> filesystem \<Rightarrow> failure + world" where
  "main root apply fs0 =
     (case run root apply fs0 of
        Inl f \<Rightarrow> Inl f
      | Inr (st1, st2) \<Rightarrow>
          Inr \<lparr>tree = tree st2, stdout = stdout st2 @ summary st1 st2\<rparr>)"

section \<open>The specification's words\<close>





section \<open>Notions for the proofs\<close>

text \<open>A name that path resolution takes as it is: not empty, not a dot component.\<close>

definition plain_name :: "string \<Rightarrow> bool" where
  "plain_name c = (c \<noteq> [] \<and> c \<noteq> ''.'' \<and> c \<noteq> ''..'')"

text \<open>The paths \<open>rglob("*.jpg")\<close> yields have a last component, and it matches.\<close>

definition jpg_path :: "path \<Rightarrow> bool" where
  "jpg_path p = (p \<noteq> [] \<and> fnmatch_jpg (name_of p))"

text \<open>The entries a walk from the root can yield, whatever the tree holds.\<close>

definition in_scope :: "path \<Rightarrow> path \<Rightarrow> bool" where
  "in_scope root p =
     (length root < length p \<and> take (length root) p = root \<and> fnmatch_jpg (name_of p))"

text \<open>The test of the second pass: \<open>exists() and is_file() and not is_symlink()\<close>,
  evaluated from left to right.\<close>

definition usable :: "filesystem \<Rightarrow> path \<Rightarrow> oserror + bool" where
  "usable fs c =
     try_bind (path_exists fs c) (\<lambda>found.
       if \<not> found then Inr False
       else try_bind (is_file fs c) (\<lambda>regular.
         if \<not> regular then Inr False
         else try_bind (is_symlink fs c) (\<lambda>link'. Inr (\<not> link'))))"

text \<open>The entry at a path is a regular file itself (no link is followed).\<close>

definition regular :: "filesystem \<Rightarrow> path \<Rightarrow> bool" where
  "regular fs p = (case map_of fs p of Some (File k) \<Rightarrow> True | _ \<Rightarrow> False)"

text \<open>The path both passes compute for an entry: its canonical name, its lowered suffix,
  its own directory.\<close>

definition canonical :: "path \<Rightarrow> path" where
  "canonical p =
     (case extract_num6 (name_of p) of
        None \<Rightarrow> p
      | Some r \<Rightarrow> with_name p (r @ lower (suffix_of p)))"

text \<open>A real file of the first pass whose name is not yet canonical.\<close>

definition candidate :: "filesystem \<Rightarrow> path \<Rightarrow> bool" where
  "candidate fs p =
     (regular fs p \<and> extract_num6 (name_of p) \<noteq> None \<and> name_of p \<noteq> name_of (canonical p))"

text \<open>\<open>newp.exists()\<close>, as the first pass evaluates it.\<close>

definition taken :: "filesystem \<Rightarrow> path \<Rightarrow> bool" where
  "taken fs p = (\<not> isl (stat fs (canonical p)))"

definition queued :: "filesystem \<Rightarrow> path \<Rightarrow> bool" where
  "queued fs p = (candidate fs p \<and> \<not> taken fs p)"

definition conflicting :: "filesystem \<Rightarrow> path \<Rightarrow> bool" where
  "conflicting fs p = (candidate fs p \<and> taken fs p)"

text \<open>What the second pass decides for an entry, read off the tree it starts from.\<close>

datatype verdict = NotLink | NoDigits | Correct | Retarget string | Broken "string option" path

definition link_verdict :: "filesystem \<Rightarrow> path \<Rightarrow> verdict" where
  "link_verdict fs p =
     (case map_of fs p of
        Some (Symlink t) \<Rightarrow>
          (case extract_num6 (name_of p) of
             None \<Rightarrow> NoDigits
           | Some r \<Rightarrow>
               if regular fs (canonical p)
               then (if t = name_of (canonical p) then Correct
                     else Retarget (name_of (canonical p)))
               else Broken (Some t) (canonical p))
      | _ \<Rightarrow> NotLink)"

text \<open>One round of the loop of the second pass: the body and its handler.\<close>

definition link_step :: "bool \<Rightarrow> path \<Rightarrow> link_state \<Rightarrow> link_state" where
  "link_step dry_run p st =
     (case link_entry dry_run p st of
        (st', None) \<Rightarrow> st'
      | (st', Some e) \<Rightarrow> print (''[ERROR][LINK] '' @ str_path p @ '': '' @ str_error e) st')"

text \<open>The effect of one round on the tree and on the three lists.\<close>

definition step_tree :: "bool \<Rightarrow> filesystem \<Rightarrow> path \<Rightarrow> filesystem" where
  "step_tree dry_run fs p =
     (case link_verdict fs p of
        Retarget rel \<Rightarrow>
          if \<not> dry_run \<and> dir_check fs p = None
          then AList.update p (Symlink rel) (AList.delete p fs) else fs
      | _ \<Rightarrow> fs)"

definition step_fixed :: "filesystem \<Rightarrow> path \<Rightarrow> path list" where
  "step_fixed fs p = (if link_verdict fs p = Correct then [p] else [])"

definition step_retargeted :: "bool \<Rightarrow> filesystem \<Rightarrow> path \<Rightarrow> (path \<times> string) list" where
  "step_retargeted dry_run fs p =
     (case link_verdict fs p of
        Retarget rel \<Rightarrow> if dry_run \<or> dir_check fs p = None then [(p, rel)] else []
      | _ \<Rightarrow> [])"

definition step_broken :: "filesystem \<Rightarrow> path \<Rightarrow> (path \<times> string option \<times> path) list" where
  "step_broken fs p =
     (case link_verdict fs p of Broken cur c \<Rightarrow> [(p, cur, c)] | _ \<Rightarrow> [])"

text \<open>Two trees that differ at most in the targets of symbolic links.\<close>

definition same_kind :: "filesystem \<Rightarrow> filesystem \<Rightarrow> bool" where
  "same_kind fs fs' =
     (\<forall>q. map_of fs' q = map_of fs q \<or>
          (\<exists>t t'. map_of fs q = Some (Symlink t) \<and> map_of fs' q = Some (Symlink t')))"


text \<open>
  The root \<open>main\<close> works with is resolved: it ends in a plain name and names no
  symbolic link.
\<close>

definition resolved_root :: "filesystem \<Rightarrow> path \<Rightarrow> bool" where
  "resolved_root fs root =
     ((root = [] \<or> plain_name (last root)) \<and>
      (case map_of fs root of Some (Symlink t) \<Rightarrow> False | _ \<Rightarrow> True))"


section \<open>Example trees\<close>

text \<open>
  A real file still to be renamed and a link that already names its canonical target,
  which the first pass will create.
\<close>

definition tree_renamed_target :: filesystem where
  "tree_renamed_target =
     [([], Dir True), ([''data''], Dir True),
      ([''data'', ''v63.jpg''], File 1),
      ([''data'', ''x63.jpg''], Symlink ''000063.jpg'')]"

definition tree_renamed_target_after :: filesystem where
  "tree_renamed_target_after =
     [([], Dir True), ([''data''], Dir True),
      ([''data'', ''x63.jpg''], Symlink ''000063.jpg''),
      ([''data'', ''000063.jpg''], File 1)]"

text \<open>Three links: one stale, one correct, one whose canonical file is missing.\<close>

definition tree_three_links :: filesystem where
  "tree_three_links =
     [([], Dir True), ([''data''], Dir True),
      ([''data'', ''000005.jpg''], File 2),
      ([''data'', ''x5.jpg''], Symlink ''/old/5.jpg''),
      ([''data'', ''y5.jpg''], Symlink ''000005.jpg''),
      ([''data'', ''z9.jpg''], Symlink ''000009.jpg'')]"

text \<open>
  Two real files with the same digits, and a dangling link that already bears their
  canonical name.
\<close>

definition tree_same_digits :: filesystem where
  "tree_same_digits =
     [([], Dir True), ([''data''], Dir True),
      ([''data'', ''a1.jpg''], File 1),
      ([''data'', ''b1.jpg''], File 2),
      ([''data'', ''000001.jpg''], Symlink ''missing.jpg'')]"

text \<open>A real file and a dangling link that bears its canonical name.\<close>

definition tree_dangling_link :: filesystem where
  "tree_dangling_link =
     [([], Dir True), ([''data''], Dir True),
      ([''data'', ''a1.jpg''], File 1),
      ([''data'', ''000001.jpg''], Symlink ''gone.jpg'')]"

text \<open>
  A directory without write permission that holds a real file to rename, beside a
  writable directory with a stale link.
\<close>

definition tree_readonly_file :: filesystem where
  "tree_readonly_file =
     [([], Dir True), ([''data''], Dir True),
      ([''data'', ''ro''], Dir False),
      ([''data'', ''ro'', ''a1.jpg''], File 1),
      ([''data'', ''000005.jpg''], File 2),
      ([''data'', ''x5.jpg''], Symlink ''/old/5.jpg'')]"

text \<open>
  A directory without write permission that holds a stale link, beside a writable
  directory with another stale link.
\<close>

definition tree_readonly_link :: filesystem where
  "tree_readonly_link =
     [([], Dir True), ([''data''], Dir True),
      ([''data'', ''ro''], Dir False),
      ([''data'', ''ro'', ''000005.jpg''], File 2),
      ([''data'', ''ro'', ''x5.jpg''], Symlink ''/old/5.jpg''),
      ([''data'', ''000007.jpg''], File 3),
      ([''data'', ''y7.jpg''], Symlink ''/old/7.jpg'')]"

text \<open>The five counts of the summary.\<close>

definition counts :: "real_state \<times> link_state \<Rightarrow> nat \<times> nat \<times> nat \<times> nat \<times> nat" where
  "counts r =
     (length (changes (fst r)), length (conflicts (fst r)), length (fixed (snd r)),
      length (retargeted (snd r)), length (broken (snd r)))"

section \<open>Digits and numerals\<close>

lemma is_digit_digit_char: "d < 10 \<Longrightarrow> is_digit (digit_char d)"
proof -
  assume "d < 10"
  then have "d \<in> {0,1,2,3,4,5,6,7,8,9}" by auto
  then show ?thesis by (auto simp: digit_char_def is_digit_def)
qed

lemma digit_val_digit_char: "d < 10 \<Longrightarrow> digit_val (digit_char d) = d"
proof -
  assume "d < 10"
  then have "d \<in> {0,1,2,3,4,5,6,7,8,9}" by auto
  then show ?thesis by (auto simp: digit_char_def digit_val_def)
qed


lemma digit_char_eq_zero: "d < 10 \<Longrightarrow> digit_char d = CHR ''0'' \<longleftrightarrow> d = 0"
proof -
  assume "d < 10"
  then have "d \<in> {0,1,2,3,4,5,6,7,8,9}" by auto
  then show ?thesis by (auto simp: digit_char_def)
qed

lemma filter_takeWhile_same: "filter P (takeWhile P xs) = takeWhile P xs"
  by (induction xs) auto

lemma filter_split_while: "filter P xs = takeWhile P xs @ filter P (dropWhile P xs)"
proof -
  have "filter P xs = filter P (takeWhile P xs @ dropWhile P xs)" by simp
  also have "\<dots> = takeWhile P xs @ filter P (dropWhile P xs)"
    by (simp only: filter_append filter_takeWhile_same)
  finally show ?thesis .
qed

lemma concat_findall_digits: "concat (findall_digits s) = filter is_digit s"
proof (induction s rule: findall_digits.induct)
  case 1
  show ?case by simp
next
  case (2 c cs)
  show ?case
  proof (cases "is_digit c")
    case True
    with 2 show ?thesis
      using filter_split_while [of is_digit cs] by simp
  next
    case False
    with 2 show ?thesis by simp
  qed
qed

lemma findall_digits_Nil_iff: "findall_digits s = [] \<longleftrightarrow> filter is_digit s = []"
  by (induction s rule: findall_digits.induct) auto

lemma findall_digits_runs:
  "r \<in> set (findall_digits s) \<Longrightarrow> r \<noteq> [] \<and> list_all is_digit r"
proof (induction s rule: findall_digits.induct)
  case 1
  then show ?case by simp
next
  case (2 c cs)
  show ?case
  proof (cases "is_digit c")
    case True
    have tw: "list_all is_digit (takeWhile is_digit cs)"
      by (simp add: list_all_iff) (meson set_takeWhileD)
    from 2(3) True consider "r = c # takeWhile is_digit cs"
      | "r \<in> set (findall_digits (dropWhile is_digit cs))" by auto
    then show ?thesis
    proof cases
      case 1
      with True tw show ?thesis by simp
    next
      case 2
      with "2.IH"(1) True show ?thesis by simp
    qed
  next
    case False
    with 2 show ?thesis by simp
  qed
qed

lemma nat_of_digits_snoc: "nat_of_digits (s @ [c]) = 10 * nat_of_digits s + digit_val c"
  by (simp add: nat_of_digits_def)

lemma nat_of_digits_Nil: "nat_of_digits [] = 0"
  by (simp add: nat_of_digits_def)

lemma nat_of_digits_single: "nat_of_digits [c] = digit_val c"
  by (simp add: nat_of_digits_def)

lemma nat_of_digits_str_nat: "nat_of_digits (str_nat n) = n"
proof (induction n rule: str_nat.induct)
  case (1 n)
  show ?case
  proof (cases "n < 10")
    case True
    then show ?thesis
      by (simp add: str_nat.simps [of n] nat_of_digits_single digit_val_digit_char)
  next
    case False
    with 1 show ?thesis
      by (simp add: str_nat.simps [of n] nat_of_digits_snoc digit_val_digit_char)
  qed
qed

lemma str_nat_digits: "list_all is_digit (str_nat n)"
proof (induction n rule: str_nat.induct)
  case (1 n)
  show ?case
  proof (cases "n < 10")
    case True
    then show ?thesis by (simp add: str_nat.simps [of n] is_digit_digit_char)
  next
    case False
    with 1 show ?thesis by (simp add: str_nat.simps [of n] is_digit_digit_char)
  qed
qed

lemma str_nat_not_Nil: "str_nat n \<noteq> []"
  by (subst str_nat.simps) simp

lemma length_str_nat_le: "0 < k \<Longrightarrow> length (str_nat n) \<le> k \<longleftrightarrow> n < 10 ^ k"
proof (induction n arbitrary: k rule: str_nat.induct)
  case (1 n)
  show ?case
  proof (cases "n < 10")
    case True
    have "(10::nat) ^ 1 \<le> 10 ^ k" using 1(2) by (intro power_increasing) auto
    with True 1(2) show ?thesis by (simp add: str_nat.simps [of n])
  next
    case False
    obtain j where k: "k = Suc j" using 1(2) by (cases k) auto
    show ?thesis
    proof (cases "j = 0")
      case True
      with False k show ?thesis
        using str_nat_not_Nil [of "n div 10"] by (simp add: str_nat.simps [of n])
    next
      case j: False
      then have "length (str_nat (n div 10)) \<le> j \<longleftrightarrow> n div 10 < 10 ^ j"
        using 1(1) [OF False, of j] by simp
      moreover have "n div 10 < 10 ^ j \<longleftrightarrow> n < 10 ^ Suc j"
        by (simp add: less_mult_imp_div_less div_less_iff_less_mult mult.commute)
      ultimately show ?thesis using False k by (simp add: str_nat.simps [of n])
    qed
  qed
qed

lemma hd_str_nat: "0 < n \<Longrightarrow> hd (str_nat n) \<noteq> CHR ''0''"
proof (induction n rule: str_nat.induct)
  case (1 n)
  show ?case
  proof (cases "n < 10")
    case True
    with 1(2) show ?thesis by (simp add: str_nat.simps [of n] digit_char_eq_zero)
  next
    case False
    then have "0 < n div 10" by (simp add: div_greater_zero_iff)
    with 1(1) False have "hd (str_nat (n div 10)) \<noteq> CHR ''0''" by simp
    with False show ?thesis
      by (simp add: str_nat.simps [of n] hd_append str_nat_not_Nil)
  qed
qed








lemma is_digit_not_space: "is_digit c \<Longrightarrow> \<not> is_space c"
  by (auto simp: is_digit_def is_space_def)

lemma strip_digits:
  assumes "list_all is_digit s"
  shows "strip s = s"
proof (cases s rule: rev_cases)
  case Nil
  then show ?thesis by (simp add: strip_def)
next
  case (snoc ys y)
  with assms have y: "\<not> is_space y" by (simp add: is_digit_not_space)
  have "dropWhile is_space s = s"
  proof (cases s)
    case Nil
    then show ?thesis by simp
  next
    case (Cons x xs)
    with assms show ?thesis by (simp add: is_digit_not_space)
  qed
  with snoc y show ?thesis by (simp add: strip_def)
qed

lemma valid_numeral_digits: "s \<noteq> [] \<Longrightarrow> list_all is_digit s \<Longrightarrow> valid_numeral s"
proof (induction s rule: valid_numeral.induct)
  case 1
  then show ?case by simp
next
  case (2 c)
  then show ?case by simp
next
  case (3 c d r)
  then have "d \<noteq> CHR ''_''" by (auto simp: is_digit_def)
  with 3 show ?case by simp
qed

lemma filter_underscore_digits:
  "list_all is_digit s \<Longrightarrow> filter (\<lambda>c. c \<noteq> CHR ''_'') s = s"
  by (induction s) (auto simp: is_digit_def)

lemma py_int_digits:
  assumes "s \<noteq> []" and "list_all is_digit s"
  shows "py_int s = Some (int (nat_of_digits s))"
proof -
  from assms have "is_digit (hd s)" by (cases s) auto
  then have sign: "hd s \<noteq> CHR ''-''" "hd s \<noteq> CHR ''+''" by (auto simp: is_digit_def)
  have st: "strip s = s" by (rule strip_digits [OF assms(2)])
  have v: "valid_numeral s" by (rule valid_numeral_digits [OF assms])
  have f: "filter (\<lambda>c. c \<noteq> CHR ''_'') s = s" by (rule filter_underscore_digits [OF assms(2)])
  show ?thesis
    unfolding py_int_def st Let_def using sign v f by simp
qed

lemma format_06d_nat: "format_06d (int n) = zero_fill 6 (str_nat n)"
  by (simp add: format_06d_def)








lemma extract_num6_digits:
  "extract_num6 name =
     (if filter is_digit name = [] then None
      else Some (zero_fill 6 (str_nat (nat_of_digits (filter is_digit name)))))"
proof (cases "filter is_digit name = []")
  case True
  then show ?thesis by (simp add: extract_num6_def findall_digits_Nil_iff)
next
  case False
  have "list_all is_digit (filter is_digit name)" by (simp add: list_all_iff)
  with False have "py_int (filter is_digit name) = Some (int (nat_of_digits (filter is_digit name)))"
    by (rule py_int_digits)
  with False show ?thesis
    by (simp add: extract_num6_def findall_digits_Nil_iff join_empty_def concat_findall_digits
        format_06d_nat)
qed

subsection \<open>Evaluating \<open>extract_num6\<close> on a given name\<close>

lemma replicate_numeral: "replicate (numeral v) x = x # replicate (pred_numeral v) x"
  by (simp add: numeral_eq_Suc)

lemmas num6_eval = replicate_numeral
  extract_num6_def is_digit_def join_empty_def py_int_def strip_def is_space_def
  nat_of_digits_def digit_val_def format_06d_def zero_fill_def str_nat.simps digit_char_def
  Let_def

section \<open>The canonical name\<close>





section \<open>The file system and the two passes\<close>

subsection \<open>Reading never raises\<close>

lemma resolve_error: "resolve fs fuel cur cs = Inl e \<Longrightarrow> ignore_error e"
proof (induction fs fuel cur cs rule: resolve.induct)
  case (1 fs fuel cur)
  then show ?case by (auto simp: ignore_error_def split: option.splits)
next
  case (2 fs fuel cur c cs)
  show ?case
  proof (cases "c = [] \<or> c = ''.''")
    case True
    with 2 show ?thesis by simp
  next
    case False
    note nd = this
    show ?thesis
    proof (cases "c = ''..''")
      case True
      with 2 nd show ?thesis by simp
    next
      case False
      show ?thesis
      proof (cases "map_of fs (cur @ [c])")
        case None
        with "2.prems" nd False show ?thesis by (simp add: ignore_error_def)
      next
        case (Some n)
        show ?thesis
        proof (cases n)
          case (File k)
          with "2.prems" nd False Some show ?thesis
            by (simp add: ignore_error_def split: if_splits)
        next
          case (Symlink t)
          show ?thesis
          proof (cases "fuel = 0 \<or> t = []")
            case True
            with "2.prems" nd False Some Symlink show ?thesis
              by (auto simp: ignore_error_def split: if_splits)
          next
            case nz: False
            with "2.prems" nd False Some Symlink
            have "resolve fs (fuel - 1) (if hd t = CHR ''/'' then [] else cur)
                    (split_where (\<lambda>x. x = CHR ''/'') t @ cs) = Inl e" by simp
            with "2.IH"(3) [OF _ _ Some Symlink] nd False nz show ?thesis by simp
          qed
        next
          case (Dir w)
          with "2.prems" nd False Some have "resolve fs fuel (cur @ [c]) cs = Inl e" by simp
          with "2.IH"(4) [OF _ _ Some Dir] nd False show ?thesis by simp
        qed
      qed
    qed
  qed
qed

lemma stat_error: "stat fs p = Inl e \<Longrightarrow> ignore_error e"
  unfolding stat_def by (metis resolve_error)

lemma path_exists_conv: "path_exists fs p = Inr (\<not> isl (stat fs p))"
  by (cases "stat fs p") (auto simp: path_exists_def dest: stat_error)

lemma is_file_conv: "is_file fs p = Inr (\<exists>k. stat fs p = Inr (File k))"
  by (cases "stat fs p") (auto simp: is_file_def dest: stat_error split: node.splits)

lemma is_symlink_conv: "is_symlink fs p = Inr (\<exists>t. map_of fs p = Some (Symlink t))"
  by (auto simp: is_symlink_def lstat_def ignore_error_def split: option.splits node.splits)

lemma stat_plain:
  assumes "p \<noteq> []" and "plain_name (last p)"
  shows "stat fs p =
     (case map_of fs p of
        None \<Rightarrow> Inl ENOENT
      | Some (File k) \<Rightarrow> Inr (File k)
      | Some (Dir w) \<Rightarrow> Inr (Dir w)
      | Some (Symlink t) \<Rightarrow>
          if t = [] then Inl ENOENT
          else resolve fs 39 (if hd t = CHR ''/'' then [] else butlast p)
                 (split_where (\<lambda>x. x = CHR ''/'') t))"
proof -
  from assms(1) have p: "butlast p @ [last p] = p" by simp
  from assms show ?thesis
    by (simp add: stat_def plain_name_def p split: option.splits node.splits)
qed

lemma fnmatch_jpg_plain: "fnmatch_jpg c \<Longrightarrow> plain_name c"
  by (auto simp: fnmatch_jpg_def plain_name_def)

lemma fnmatch_jpg_append: "fnmatch_jpg (r @ ''.jpg'')"
  by (simp add: fnmatch_jpg_def)

lemma fnmatch_jpg_split: "fnmatch_jpg c \<Longrightarrow> \<exists>pre. c = pre @ ''.jpg''"
  by (metis append_take_drop_id fnmatch_jpg_def)

lemma jpg_path_last: "jpg_path p \<Longrightarrow> p \<noteq> [] \<and> plain_name (last p)"
  by (auto simp: jpg_path_def name_of_def dest: fnmatch_jpg_plain)

lemma stat_File: "jpg_path p \<Longrightarrow> map_of fs p = Some (File k) \<Longrightarrow> stat fs p = Inr (File k)"
  by (drule jpg_path_last) (simp add: stat_plain)

lemma stat_Dir: "jpg_path p \<Longrightarrow> map_of fs p = Some (Dir w) \<Longrightarrow> stat fs p = Inr (Dir w)"
  by (drule jpg_path_last) (simp add: stat_plain)

lemma stat_None: "jpg_path p \<Longrightarrow> map_of fs p = None \<Longrightarrow> stat fs p = Inl ENOENT"
  by (drule jpg_path_last) (simp add: stat_plain)

lemma usable_conv:
  assumes "jpg_path c"
  shows "usable fs c = Inr (\<exists>k. map_of fs c = Some (File k))"
proof (cases "map_of fs c")
  case None
  with assms show ?thesis
    by (simp add: usable_def try_bind_def path_exists_conv stat_None)
next
  case (Some n)
  show ?thesis
  proof (cases n)
    case (File k)
    with Some assms show ?thesis
      by (simp add: usable_def try_bind_def path_exists_conv is_file_conv is_symlink_conv stat_File)
  next
    case (Symlink t)
    with Some show ?thesis
      by (simp add: usable_def try_bind_def path_exists_conv is_file_conv is_symlink_conv)
  next
    case (Dir w)
    with Some assms show ?thesis
      by (simp add: usable_def try_bind_def path_exists_conv is_file_conv is_symlink_conv stat_Dir)
  qed
qed

lemma real_file_conv:
  assumes "jpg_path p"
  shows "(\<not> (\<exists>t. map_of fs p = Some (Symlink t)) \<and> (\<exists>k. stat fs p = Inr (File k)))
           \<longleftrightarrow> (\<exists>k. map_of fs p = Some (File k))"
proof (cases "map_of fs p")
  case None
  with assms show ?thesis by (simp add: stat_None)
next
  case (Some n)
  with assms show ?thesis
    by (cases n) (auto simp: stat_File stat_Dir)
qed

subsection \<open>Names\<close>

lemma name_of_with_name [simp]: "name_of (with_name p x) = x"
  by (simp add: name_of_def with_name_def)

lemma parent_with_name [simp]: "parent (with_name p x) = parent p"
  by (simp add: parent_def with_name_def)

lemma with_name_not_Nil [simp]: "with_name p x \<noteq> []"
  by (simp add: with_name_def)

lemma with_name_name_of: "p \<noteq> [] \<Longrightarrow> with_name p (name_of p) = p"
  by (simp add: with_name_def name_of_def)

lemma commonprefix_append: "commonprefix d (d @ ys) = d"
  by (induction d) auto

lemma relpath_with_name: "relpath (with_name p x) (parent p) = x"
  by (simp add: relpath_def with_name_def parent_def commonprefix_append)

lemma rfind_dot_append:
  "CHR ''.'' \<notin> set ys \<Longrightarrow> rfind_dot (xs @ CHR ''.'' # ys) = Some (length xs)"
proof (induction xs)
  case Nil
  have "CHR ''.'' \<notin> set ys \<Longrightarrow> rfind_dot ys = None" for ys
    by (induction ys) (auto split: option.splits)
  with Nil show ?case by simp
next
  case (Cons x xs)
  then show ?case by simp
qed

lemma lower_jpg: "lower ''.jpg'' = ''.jpg''"
  by (simp add: lower_def lower_char_def)

lemma suffix_of_jpg:
  assumes "p \<noteq> []" and "name_of p = pre @ ''.jpg''" and "pre \<noteq> []"
  shows "lower (suffix_of p) = ''.jpg''"
proof -
  have "rfind_dot (pre @ CHR ''.'' # ''jpg'') = Some (length pre)"
    by (rule rfind_dot_append) simp
  with assms show ?thesis
    by (simp add: suffix_of_def lower_jpg)
qed

lemma no_digit_jpg: "filter is_digit ''.jpg'' = []"
  by (simp add: is_digit_def)

lemma suffix_of_digits:
  assumes "jpg_path p" and "extract_num6 (name_of p) = Some r"
  shows "lower (suffix_of p) = ''.jpg''"
proof -
  from assms(1) obtain pre where pre: "name_of p = pre @ ''.jpg''"
    using fnmatch_jpg_split by (auto simp: jpg_path_def)
  from assms(2) have "filter is_digit (name_of p) \<noteq> []"
    by (auto simp: extract_num6_digits split: if_splits)
  with pre have "pre \<noteq> []" using no_digit_jpg by (cases pre) (auto simp del: filter.simps)
  with assms(1) pre show ?thesis by (intro suffix_of_jpg) (auto simp: jpg_path_def)
qed

lemma is_digit_zero: "is_digit (CHR ''0'')"
  by (simp add: is_digit_def)

lemma zero_fill_digits: "list_all is_digit s \<Longrightarrow> list_all is_digit (zero_fill k s)"
  by (auto simp: zero_fill_def list_all_iff is_digit_zero)

lemma nat_of_digits_zeros: "nat_of_digits (replicate k (CHR ''0'') @ s) = nat_of_digits s"
proof -
  have "foldl (\<lambda>a c. 10 * a + digit_val c) 0 (replicate k (CHR ''0'')) = 0"
    by (induction k) (simp_all add: digit_val_def)
  then show ?thesis by (simp add: nat_of_digits_def)
qed

lemma nat_of_digits_zero_fill: "nat_of_digits (zero_fill k s) = nat_of_digits s"
  by (simp add: zero_fill_def nat_of_digits_zeros)

lemma extract_num6_Some:
  assumes "extract_num6 name = Some r"
  shows "r = zero_fill 6 (str_nat (nat_of_digits (filter is_digit name)))"
  using assms by (auto simp: extract_num6_digits split: if_splits)

lemma extract_num6_all_digits:
  assumes "extract_num6 name = Some r"
  shows "list_all is_digit r" and "r \<noteq> []" and "6 \<le> length r"
  using extract_num6_Some [OF assms]
  by (simp_all add: zero_fill_digits str_nat_digits, simp_all add: zero_fill_def str_nat_not_Nil)

lemma extract_num6_fixpoint:
  assumes "extract_num6 name = Some r"
  shows "extract_num6 (r @ ''.jpg'') = Some r"
proof -
  let ?v = "nat_of_digits (filter is_digit name)"
  have r: "r = zero_fill 6 (str_nat ?v)" by (rule extract_num6_Some [OF assms])
  have dg: "list_all is_digit r" and ne: "r \<noteq> []"
    using extract_num6_all_digits [OF assms] by simp_all
  from dg have "filter is_digit r = r" by (simp add: list_all_iff)
  then have f: "filter is_digit (r @ ''.jpg'') = r"
    using no_digit_jpg by (simp only: filter_append) simp
  have "nat_of_digits r = ?v"
    by (simp add: r nat_of_digits_zero_fill nat_of_digits_str_nat)
  with f ne r show ?thesis by (simp add: extract_num6_digits)
qed

lemma regular_iff: "regular fs p \<longleftrightarrow> (\<exists>k. map_of fs p = Some (File k))"
  by (auto simp: regular_def split: option.splits node.splits)

lemma real_entry_skip:
  assumes "jpg_path p" and "\<not> regular fs p" and "tree st = fs"
  shows "real_entry p st = Inr st"
proof -
  from assms(1,2) have "(\<exists>t. map_of fs p = Some (Symlink t)) \<or> \<not> (\<exists>k. stat fs p = Inr (File k))"
    using real_file_conv [of p fs] by (auto simp: regular_iff)
  with assms(3) show ?thesis
    by (auto simp: real_entry_def try_bind_def is_symlink_conv is_file_conv)
qed

lemma real_entry_regular:
  assumes "jpg_path p" and "regular fs p" and "tree st = fs"
  shows "real_entry p st =
     (case extract_num6 (name_of p) of
        None \<Rightarrow> Inr (print (''[WARN][REAL] No digits in filename, skip: '' @ str_path p) st)
      | Some num6 \<Rightarrow>
          if name_of p = name_of (canonical p) then Inr st
          else if taken fs p
          then Inr (print (''[CONFLICT][REAL] '' @ str_path p @ '' -> '' @
                      str_path (canonical p) @ '' (target exists, skip rename)'')
                    (st\<lparr>conflicts := conflicts st @ [(p, canonical p)]\<rparr>))
          else Inr (st\<lparr>changes := changes st @ [(p, canonical p)]\<rparr>))"
proof -
  from assms(1,2) have a: "\<not> (\<exists>t. map_of fs p = Some (Symlink t))" and b: "\<exists>k. stat fs p = Inr (File k)"
    using real_file_conv [of p fs] by (auto simp: regular_iff)
  show ?thesis
  proof (cases "extract_num6 (name_of p)")
    case None
    with a b show ?thesis
      unfolding real_entry_def try_bind_def is_symlink_conv is_file_conv assms(3)
      by simp
  next
    case (Some r)
    then have c: "canonical p = with_name p (r @ lower (suffix_of p))"
      by (simp add: canonical_def)
    from a b Some show ?thesis
      unfolding real_entry_def try_bind_def is_symlink_conv is_file_conv path_exists_conv
        assms(3) taken_def c
      by (simp add: Let_def)
  qed
qed

lemma real_entry_tree:
  assumes "jpg_path p" and "real_entry p st = Inr st'"
  shows "tree st' = tree st"
proof (cases "regular (tree st) p")
  case True
  from assms(2) show ?thesis
    unfolding real_entry_regular [OF assms(1) True refl]
    by (auto simp: print_def split: option.splits if_splits)
next
  case False
  from assms(2) show ?thesis
    unfolding real_entry_skip [OF assms(1) False refl] by simp
qed

lemma real_entry_total:
  assumes "jpg_path p"
  shows "\<exists>st'. real_entry p st = Inr st' \<and> tree st' = tree st \<and>
           changes st' = changes st @ (if queued (tree st) p then [(p, canonical p)] else []) \<and>
           conflicts st' = conflicts st @ (if conflicting (tree st) p then [(p, canonical p)] else [])"
proof (cases "regular (tree st) p")
  case True
  show ?thesis
    unfolding real_entry_regular [OF assms True refl]
    using True
    by (auto simp: print_def queued_def conflicting_def candidate_def split: option.splits)
next
  case False
  then show ?thesis
    unfolding real_entry_skip [OF assms False refl]
    by (simp add: queued_def conflicting_def candidate_def)
qed

lemma scan_real_files_conv:
  assumes "\<forall>p\<in>set ps. jpg_path p"
  shows "tree (scan_real_files ps st) = tree st \<and>
         changes (scan_real_files ps st) =
           changes st @ map (\<lambda>p. (p, canonical p)) (filter (queued (tree st)) ps) \<and>
         conflicts (scan_real_files ps st) =
           conflicts st @ map (\<lambda>p. (p, canonical p)) (filter (conflicting (tree st)) ps)"
  using assms
proof (induction ps arbitrary: st)
  case Nil
  show ?case by simp
next
  case (Cons p ps)
  then have "jpg_path p" by simp
  from real_entry_total [OF this, of st] obtain st' where
    st': "real_entry p st = Inr st'" "tree st' = tree st"
      "changes st' = changes st @ (if queued (tree st) p then [(p, canonical p)] else [])"
      "conflicts st' = conflicts st @ (if conflicting (tree st) p then [(p, canonical p)] else [])"
    by blast
  from Cons have "\<forall>p\<in>set ps. jpg_path p" by simp
  from Cons.IH [OF this, of st'] st' show ?case by simp
qed

lemma is_dir_conv: "is_dir fs p = Inr (\<exists>w. stat fs p = Inr (Dir w))"
  by (cases "stat fs p") (auto simp: is_dir_def dest: stat_error split: node.splits)

lemma rglob_jpg_distinct: "distinct (rglob_jpg root fs)"
  by (simp add: rglob_jpg_def is_dir_conv)

lemma rglob_jpg_set:
  "p \<in> set (rglob_jpg root fs) \<longleftrightarrow>
     is_dir fs root = Inr True \<and> map_of fs p \<noteq> None \<and> in_scope root p"
  by (auto simp: rglob_jpg_def is_dir_conv in_scope_def map_of_eq_None_iff)

lemma in_scope_jpg_path: "in_scope root p \<Longrightarrow> jpg_path p"
  by (auto simp: in_scope_def jpg_path_def)

lemma rglob_jpg_path: "p \<in> set (rglob_jpg root fs) \<Longrightarrow> jpg_path p"
  by (auto simp: rglob_jpg_set dest: in_scope_jpg_path)

lemma canonical_Some:
  assumes "jpg_path p" and "extract_num6 (name_of p) = Some r"
  shows "canonical p = with_name p (r @ ''.jpg'')"
  using assms by (simp add: canonical_def suffix_of_digits)

lemma in_scope_canonical:
  assumes "in_scope root p"
  shows "in_scope root (canonical p)"
proof (cases "extract_num6 (name_of p)")
  case None
  with assms show ?thesis by (simp add: canonical_def)
next
  case (Some r)
  from assms have jp: "jpg_path p" by (rule in_scope_jpg_path)
  have c: "canonical p = butlast p @ [r @ ''.jpg'']"
    using canonical_Some [OF jp Some] by (simp add: with_name_def)
  from assms have len: "length root \<le> length (butlast p)" by (auto simp: in_scope_def)
  from assms have "p \<noteq> []" by (auto simp: in_scope_def)
  then have "take (length root) p = take (length root) (butlast p @ [last p])" by simp
  also have "\<dots> = take (length root) (butlast p)" using len by (simp only: take_append) simp
  finally have tk: "take (length root) (butlast p) = root" using assms by (simp add: in_scope_def)
  from len tk show ?thesis
    by (simp add: c in_scope_def name_of_def fnmatch_jpg_append)
qed

lemma canonical_idem:
  assumes "jpg_path p" and "extract_num6 (name_of p) = Some r"
  shows "extract_num6 (name_of (canonical p)) = Some r"
    and "name_of (canonical (canonical p)) = name_of (canonical p)"
    and "jpg_path (canonical p)"
proof -
  have c: "canonical p = with_name p (r @ ''.jpg'')" by (rule canonical_Some [OF assms])
  show e: "extract_num6 (name_of (canonical p)) = Some r"
    by (simp add: c extract_num6_fixpoint [OF assms(2)])
  show j: "jpg_path (canonical p)"
    by (simp add: c jpg_path_def fnmatch_jpg_append)
  show "name_of (canonical (canonical p)) = name_of (canonical p)"
    using canonical_Some [OF j e] by (simp add: c)
qed

subsection \<open>Renaming\<close>

lemma os_rename_map:
  assumes "os_rename fs old new = Inr fs'"
  shows "map_of fs' q =
           (if old = new then map_of fs q
            else if q = new then map_of fs old
            else if q = old then None else map_of fs q)"
    and "\<exists>n. map_of fs old = Some n \<and> (old \<noteq> new \<longrightarrow> (\<forall>w. n \<noteq> Dir w))"
    and "old \<noteq> new \<Longrightarrow> \<forall>w. map_of fs new \<noteq> Some (Dir w)"
  using assms
  by (auto simp: os_rename_def Let_def update_conv' delete_conv'
      split: option.splits node.splits if_splits)

lemma perform_renames_lists:
  "perform_renames dry_run cs st = Inr st' \<Longrightarrow>
     changes st' = changes st \<and> conflicts st' = conflicts st"
proof (induction cs arbitrary: st)
  case Nil
  then show ?case by simp
next
  case (Cons c cs)
  show ?case
  proof (cases dry_run)
    case True
    with Cons.prems Cons.IH [of "print (''[RENAME][REAL] '' @ str_path (fst c) @ '' -> '' @ str_path (snd c)) st"]
    show ?thesis by (simp add: Let_def print_def)
  next
    case False
    with Cons.prems obtain fs' where
      "perform_renames dry_run cs ((print (''[RENAME][REAL] '' @ str_path (fst c) @ '' -> '' @ str_path (snd c)) st)\<lparr>tree := fs'\<rparr>) = Inr st'"
      by (auto simp: Let_def try_bind_def split: sum.splits)
    from Cons.IH [OF this] show ?thesis by (simp add: print_def)
  qed
qed

lemma perform_renames_dry:
  "\<exists>st'. perform_renames True cs st = Inr st' \<and> tree st' = tree st"
proof (induction cs arbitrary: st)
  case Nil
  show ?case by simp
next
  case (Cons c cs)
  from Cons [of "print (''[RENAME][REAL] '' @ str_path (fst c) @ '' -> '' @ str_path (snd c)) st"]
  show ?case by (simp add: Let_def print_def)
qed

lemma perform_renames_files:
  "perform_renames False cs st = Inr st' \<Longrightarrow> map_of (tree st') q = Some (File k) \<Longrightarrow>
     q \<in> snd ` set cs \<or> (q \<notin> fst ` set cs \<and> map_of (tree st) q = Some (File k))"
proof (induction cs arbitrary: st)
  case Nil
  then show ?case by simp
next
  case (Cons c cs)
  let ?st1 = "print (''[RENAME][REAL] '' @ str_path (fst c) @ '' -> '' @ str_path (snd c)) st"
  from Cons.prems(1) obtain fs' where
    rn: "os_rename (tree st) (fst c) (snd c) = Inr fs'" and
    rest: "perform_renames False cs (?st1\<lparr>tree := fs'\<rparr>) = Inr st'"
    by (auto simp: Let_def try_bind_def print_def split: sum.splits)
  from Cons.IH [OF rest Cons.prems(2)]
  have "q \<in> snd ` set cs \<or> (q \<notin> fst ` set cs \<and> map_of fs' q = Some (File k))" by simp
  then show ?case
  proof
    assume "q \<in> snd ` set cs"
    then show ?thesis by simp
  next
    assume a: "q \<notin> fst ` set cs \<and> map_of fs' q = Some (File k)"
    show ?thesis
    proof (cases "fst c = snd c")
      case True
      with a os_rename_map(1) [OF rn, of q] show ?thesis by auto
    next
      case False
      with a os_rename_map(1) [OF rn, of q] show ?thesis
        by (auto split: if_splits)
    qed
  qed
qed

lemma perform_renames_dirs:
  "perform_renames False cs st = Inr st' \<Longrightarrow>
     map_of (tree st') q = Some (Dir w) \<longleftrightarrow> map_of (tree st) q = Some (Dir w)"
proof (induction cs arbitrary: st)
  case Nil
  then show ?case by simp
next
  case (Cons c cs)
  let ?st1 = "print (''[RENAME][REAL] '' @ str_path (fst c) @ '' -> '' @ str_path (snd c)) st"
  from Cons.prems(1) obtain fs' where
    rn: "os_rename (tree st) (fst c) (snd c) = Inr fs'" and
    rest: "perform_renames False cs (?st1\<lparr>tree := fs'\<rparr>) = Inr st'"
    by (auto simp: Let_def try_bind_def print_def split: sum.splits)
  from Cons.IH [OF rest]
  have "map_of (tree st') q = Some (Dir w) \<longleftrightarrow> map_of fs' q = Some (Dir w)" by simp
  also have "\<dots> \<longleftrightarrow> map_of (tree st) q = Some (Dir w)"
    using os_rename_map(1) [OF rn, of q] os_rename_map(2,3) [OF rn] by (auto split: if_splits)
  finally show ?case .
qed

lemma fix_loop_Cons: "fix_loop dry_run (p # ps) st = fix_loop dry_run ps (link_step dry_run p st)"
  by (simp add: link_step_def)

lemma dir_check_delete:
  assumes "p \<noteq> []"
  shows "dir_check (AList.delete p fs) p = dir_check fs p"
proof -
  from assms have "butlast p \<noteq> p" by (cases p rule: rev_cases) auto
  then show ?thesis by (simp add: dir_check_def parent_def delete_conv')
qed

lemma retarget_link_conv:
  assumes "p \<noteq> []" and "map_of (tree st) p = Some (Symlink t)"
  shows "retarget_link dry_run p rel st =
     (if dry_run then (st\<lparr>retargeted := retargeted st @ [(p, rel)]\<rparr>, None)
      else (case dir_check (tree st) p of
              None \<Rightarrow>
                (st\<lparr>tree := AList.update p (Symlink rel) (AList.delete p (tree st)),
                    retargeted := retargeted st @ [(p, rel)]\<rparr>, None)
            | Some e \<Rightarrow> (st, Some (OSError e (quote (str_path p))))))"
proof (cases dry_run)
  case True
  then show ?thesis by (simp add: retarget_link_def)
next
  case False
  have pres: "try_bind (path_exists (tree st) p)
                (\<lambda>found. if found then Inr True else is_symlink (tree st) p) = Inr True"
    using assms(2) by (simp add: try_bind_def path_exists_conv is_symlink_conv)
  show ?thesis
  proof (cases "dir_check (tree st) p")
    case None
    then have u: "os_unlink (tree st) p = Inr (AList.delete p (tree st))"
      using assms(2) by (simp add: os_unlink_def)
    have s: "os_symlink (AList.delete p (tree st)) rel p =
               Inr (AList.update p (Symlink rel) (AList.delete p (tree st)))"
      using None by (simp add: os_symlink_def Let_def delete_conv' dir_check_delete [OF assms(1)])
    from False None show ?thesis
      unfolding retarget_link_def pres by (simp add: u s)
  next
    case (Some e)
    then have u: "os_unlink (tree st) p = Inl (OSError e (quote (str_path p)))"
      using assms(2) by (simp add: os_unlink_def)
    from False Some show ?thesis
      unfolding retarget_link_def pres by (simp add: u)
  qed
qed

lemma link_entry_conv:
  assumes "jpg_path p"
  shows "link_entry dry_run p st =
     (case link_verdict (tree st) p of
        NotLink \<Rightarrow> (st, None)
      | NoDigits \<Rightarrow>
          (print (''[WARN][LINK] No digits in symlink name, skip: '' @ str_path p) st, None)
      | Correct \<Rightarrow> (st\<lparr>fixed := fixed st @ [p]\<rparr>, None)
      | Retarget rel \<Rightarrow>
          retarget_link dry_run p rel
            (print (''[RETARGET][LINK] '' @ str_path p @ '' -> '' @ rel) st)
      | Broken cur c \<Rightarrow>
          (print (''[BROKEN][LINK] '' @ str_path p @ '' -> '' @ str_opt cur @
                    '' (missing '' @ str_path c @ '')'')
             (st\<lparr>broken := broken st @ [(p, cur, c)]\<rparr>), None))"
proof (cases "\<exists>t. map_of (tree st) p = Some (Symlink t)")
  case False
  then have "link_verdict (tree st) p = NotLink"
    by (auto simp: link_verdict_def split: option.splits node.splits)
  with False show ?thesis
    by (simp add: link_entry_def is_symlink_conv)
next
  case True
  then obtain t where t: "map_of (tree st) p = Some (Symlink t)" by blast
  show ?thesis
  proof (cases "extract_num6 (name_of p)")
    case None
    with t have "link_verdict (tree st) p = NoDigits" by (simp add: link_verdict_def)
    with t None show ?thesis
      by (simp add: link_entry_def is_symlink_conv)
  next
    case (Some r)
    have c: "canonical p = with_name p (r @ ''.jpg'')" by (rule canonical_Some [OF assms Some])
    have sf: "lower (suffix_of p) = ''.jpg''" by (rule suffix_of_digits [OF assms Some])
    have jc: "jpg_path (canonical p)" by (rule canonical_idem(3) [OF assms Some])
    have us: "usable (tree st) (canonical p) = Inr (regular (tree st) (canonical p))"
      by (simp add: usable_conv [OF jc] regular_iff)
    have rl: "relpath (canonical p) (parent p) = name_of (canonical p)"
      by (simp add: c relpath_with_name)
    have rd: "os_readlink (tree st) p = Inr t" using t by (simp add: os_readlink_def)
    have c0: "with_name p (r @ lower (suffix_of p)) = canonical p" by (simp add: c sf)
    have sy: "is_symlink (tree st) p = Inr True" using t by (simp add: is_symlink_conv)
    have lv: "link_verdict (tree st) p =
        (if regular (tree st) (canonical p)
         then (if t = name_of (canonical p) then Correct else Retarget (name_of (canonical p)))
         else Broken (Some t) (canonical p))"
      using t Some by (simp add: link_verdict_def)
    have "link_entry dry_run p st =
        (case usable (tree st) (canonical p) of
           Inl e \<Rightarrow> (st, Some e)
         | Inr ok \<Rightarrow>
             if ok
             then let rel = relpath (canonical p) (parent p)
                  in if Some t \<noteq> Some rel
                     then retarget_link dry_run p rel
                            (print (''[RETARGET][LINK] '' @ str_path p @ '' -> '' @ rel) st)
                     else (st\<lparr>fixed := fixed st @ [p]\<rparr>, None)
             else (print (''[BROKEN][LINK] '' @ str_path p @ '' -> '' @
                            str_opt (Some t) @ '' (missing '' @
                            str_path (canonical p) @ '')'')
                     (st\<lparr>broken := broken st @ [(p, Some t, canonical p)]\<rparr>),
                   None))"
      unfolding link_entry_def Some option.case c0 rd sy usable_def
      by (simp add: Let_def)
    then show ?thesis
      unfolding us rl lv by (simp add: Let_def)
  qed
qed

lemma link_verdict_link:
  "link_verdict fs p \<noteq> NotLink \<Longrightarrow> \<exists>t. map_of fs p = Some (Symlink t)"
  by (auto simp: link_verdict_def split: option.splits node.splits)

lemma link_step_conv:
  assumes "jpg_path p"
  shows "tree (link_step dry_run p st) = step_tree dry_run (tree st) p"
    and "fixed (link_step dry_run p st) = fixed st @ step_fixed (tree st) p"
    and "retargeted (link_step dry_run p st) = retargeted st @ step_retargeted dry_run (tree st) p"
    and "broken (link_step dry_run p st) = broken st @ step_broken (tree st) p"
proof -
  from assms have ne: "p \<noteq> []" by (simp add: jpg_path_def)
  note le = link_entry_conv [OF assms, of dry_run st]
  have "tree (link_step dry_run p st) = step_tree dry_run (tree st) p \<and>
        fixed (link_step dry_run p st) = fixed st @ step_fixed (tree st) p \<and>
        retargeted (link_step dry_run p st) = retargeted st @ step_retargeted dry_run (tree st) p \<and>
        broken (link_step dry_run p st) = broken st @ step_broken (tree st) p"
  proof (cases "link_verdict (tree st) p")
    case NotLink
    then show ?thesis
      by (simp add: link_step_def le step_tree_def step_fixed_def step_retargeted_def step_broken_def)
  next
    case NoDigits
    then show ?thesis
      by (simp add: link_step_def le step_tree_def step_fixed_def step_retargeted_def
          step_broken_def print_def)
  next
    case Correct
    then show ?thesis
      by (simp add: link_step_def le step_tree_def step_fixed_def step_retargeted_def step_broken_def)
  next
    case (Broken cur c)
    then show ?thesis
      by (simp add: link_step_def le step_tree_def step_fixed_def step_retargeted_def
          step_broken_def print_def)
  next
    case (Retarget rel)
    then obtain t where t: "map_of (tree st) p = Some (Symlink t)"
      using link_verdict_link [of "tree st" p] by auto
    let ?st1 = "print (''[RETARGET][LINK] '' @ str_path p @ '' -> '' @ rel) st"
    have t1: "map_of (tree ?st1) p = Some (Symlink t)" using t by (simp add: print_def)
    note rc = retarget_link_conv [OF ne t1, of dry_run rel]
    show ?thesis
    proof (cases "dir_check (tree st) p")
      case None
      then show ?thesis
        unfolding link_step_def le Retarget verdict.case rc
        by (simp add: Retarget step_tree_def step_fixed_def step_retargeted_def
            step_broken_def print_def)
    next
      case (Some e)
      then show ?thesis
        unfolding link_step_def le Retarget verdict.case rc
        by (simp add: Retarget step_tree_def step_fixed_def step_retargeted_def
            step_broken_def print_def)
    qed
  qed
  then show "tree (link_step dry_run p st) = step_tree dry_run (tree st) p"
    and "fixed (link_step dry_run p st) = fixed st @ step_fixed (tree st) p"
    and "retargeted (link_step dry_run p st) = retargeted st @ step_retargeted dry_run (tree st) p"
    and "broken (link_step dry_run p st) = broken st @ step_broken (tree st) p"
    by simp_all
qed

lemma same_kind_refl: "same_kind fs fs"
  by (simp add: same_kind_def)

lemma same_kind_regular:
  assumes "same_kind fs fs'"
  shows "regular fs' q = regular fs q"
proof -
  from assms have "map_of fs' q = map_of fs q \<or>
      (\<exists>t t'. map_of fs q = Some (Symlink t) \<and> map_of fs' q = Some (Symlink t'))"
    by (simp add: same_kind_def)
  then show ?thesis by (auto simp: regular_def)
qed

lemma same_kind_dir_check:
  assumes "same_kind fs fs'"
  shows "dir_check fs' q = dir_check fs q"
proof -
  from assms have "map_of fs' (parent q) = map_of fs (parent q) \<or>
      (\<exists>t t'. map_of fs (parent q) = Some (Symlink t) \<and> map_of fs' (parent q) = Some (Symlink t'))"
    by (simp add: same_kind_def)
  then show ?thesis by (auto simp: dir_check_def)
qed

lemma same_kind_verdict:
  "same_kind fs fs' \<Longrightarrow> map_of fs' p = map_of fs p \<Longrightarrow> link_verdict fs' p = link_verdict fs p"
  unfolding link_verdict_def by (simp only: same_kind_regular [of fs fs'])

lemma step_tree_other: "q \<noteq> p \<Longrightarrow> map_of (step_tree dry_run fs p) q = map_of fs q"
  by (cases "link_verdict fs p") (simp_all add: step_tree_def update_conv' delete_conv')

lemma step_tree_self:
  "map_of (step_tree dry_run fs p) p =
     (case link_verdict fs p of
        Retarget rel \<Rightarrow>
          if \<not> dry_run \<and> dir_check fs p = None then Some (Symlink rel) else map_of fs p
      | _ \<Rightarrow> map_of fs p)"
  by (cases "link_verdict fs p") (simp_all add: step_tree_def update_conv')

lemma step_tree_dry: "step_tree True fs p = fs"
  by (cases "link_verdict fs p") (simp_all add: step_tree_def)

lemma same_kind_step:
  assumes "same_kind fs0 fs"
  shows "same_kind fs0 (step_tree dry_run fs p)"
  unfolding same_kind_def
proof
  fix q
  from assms have q: "map_of fs q = map_of fs0 q \<or>
      (\<exists>t t'. map_of fs0 q = Some (Symlink t) \<and> map_of fs q = Some (Symlink t'))"
    by (simp add: same_kind_def)
  show "map_of (step_tree dry_run fs p) q = map_of fs0 q \<or>
      (\<exists>t t'. map_of fs0 q = Some (Symlink t) \<and> map_of (step_tree dry_run fs p) q = Some (Symlink t'))"
  proof (cases "q = p")
    case False
    with q show ?thesis by (simp add: step_tree_other)
  next
    case True
    show ?thesis
    proof (cases "link_verdict fs p")
      case (Retarget rel)
      then obtain t where t: "map_of fs p = Some (Symlink t)"
        using link_verdict_link [of fs p] by auto
      with q True have "\<exists>t0. map_of fs0 q = Some (Symlink t0)" by metis
      then obtain t0 where t0: "map_of fs0 q = Some (Symlink t0)" ..
      have "\<exists>t'. map_of (step_tree dry_run fs p) p = Some (Symlink t')"
        using t Retarget by (simp add: step_tree_self)
      with t0 True show ?thesis by simp
    qed (use q True in \<open>simp_all add: step_tree_self\<close>)
  qed
qed

lemma fix_loop_conv:
  assumes "distinct ps" and "\<forall>p\<in>set ps. jpg_path p" and "same_kind fs0 (tree st)"
    and "\<forall>q\<in>set ps. map_of (tree st) q = map_of fs0 q"
  shows "fixed (fix_loop dry_run ps st) = fixed st @ concat (map (step_fixed fs0) ps) \<and>
         retargeted (fix_loop dry_run ps st) =
           retargeted st @ concat (map (step_retargeted dry_run fs0) ps) \<and>
         broken (fix_loop dry_run ps st) = broken st @ concat (map (step_broken fs0) ps) \<and>
         same_kind fs0 (tree (fix_loop dry_run ps st)) \<and>
         (\<forall>q. map_of (tree (fix_loop dry_run ps st)) q =
               (if q \<in> set ps then map_of (step_tree dry_run fs0 q) q else map_of (tree st) q))"
  using assms
proof (induction ps arbitrary: st)
  case Nil
  then show ?case by simp
next
  case (Cons p ps)
  let ?st1 = "link_step dry_run p st"
  from Cons.prems have jp: "jpg_path p" and pn: "p \<notin> set ps" by simp_all
  from Cons.prems have mp: "map_of (tree st) p = map_of fs0 p" by simp
  note sk = Cons.prems(3)
  have v: "link_verdict (tree st) p = link_verdict fs0 p" by (rule same_kind_verdict [OF sk mp])
  have d: "dir_check (tree st) p = dir_check fs0 p" by (rule same_kind_dir_check [OF sk])
  note sc = link_step_conv [OF jp, of dry_run st]
  have f1: "fixed ?st1 = fixed st @ step_fixed fs0 p" by (simp add: sc step_fixed_def v)
  have r1: "retargeted ?st1 = retargeted st @ step_retargeted dry_run fs0 p"
    unfolding sc step_retargeted_def v d by simp
  have b1: "broken ?st1 = broken st @ step_broken fs0 p" by (simp add: sc step_broken_def v)
  have sk1: "same_kind fs0 (tree ?st1)" by (simp add: sc same_kind_step [OF sk])
  have rest: "\<forall>q\<in>set ps. map_of (tree ?st1) q = map_of fs0 q"
  proof
    fix q assume q: "q \<in> set ps"
    with pn have "q \<noteq> p" by auto
    then have "map_of (tree ?st1) q = map_of (tree st) q" by (simp add: sc step_tree_other)
    with Cons.prems(4) q show "map_of (tree ?st1) q = map_of fs0 q" by simp
  qed
  have self: "map_of (tree ?st1) p = map_of (step_tree dry_run fs0 p) p"
    unfolding sc step_tree_self v d mp by simp
  from Cons.prems have "distinct ps" and "\<forall>p\<in>set ps. jpg_path p" by simp_all
  from Cons.IH [OF this sk1 rest]
  have ih: "fixed (fix_loop dry_run ps ?st1) = fixed ?st1 @ concat (map (step_fixed fs0) ps)"
    "retargeted (fix_loop dry_run ps ?st1) =
       retargeted ?st1 @ concat (map (step_retargeted dry_run fs0) ps)"
    "broken (fix_loop dry_run ps ?st1) = broken ?st1 @ concat (map (step_broken fs0) ps)"
    "same_kind fs0 (tree (fix_loop dry_run ps ?st1))"
    "\<And>q. map_of (tree (fix_loop dry_run ps ?st1)) q =
       (if q \<in> set ps then map_of (step_tree dry_run fs0 q) q else map_of (tree ?st1) q)"
    by simp_all
  have "\<forall>q. map_of (tree (fix_loop dry_run ps ?st1)) q =
       (if q \<in> set (p # ps) then map_of (step_tree dry_run fs0 q) q else map_of (tree st) q)"
  proof
    fix q
    show "map_of (tree (fix_loop dry_run ps ?st1)) q =
       (if q \<in> set (p # ps) then map_of (step_tree dry_run fs0 q) q else map_of (tree st) q)"
    proof (cases "q = p")
      case True
      with ih(5) [of q] self pn show ?thesis by simp
    next
      case False
      then have "map_of (tree ?st1) q = map_of (tree st) q" by (simp add: sc step_tree_other)
      with ih(5) [of q] False show ?thesis by simp
    qed
  qed
  with ih(1-4) f1 r1 b1 show ?case
    by (simp only: fix_loop_Cons) simp
qed

lemma fix_loop_dry_tree:
  "\<forall>p\<in>set ps. jpg_path p \<Longrightarrow> tree (fix_loop True ps st) = tree st"
proof (induction ps arbitrary: st)
  case Nil
  show ?case by simp
next
  case (Cons p ps)
  then have "tree (link_step True p st) = tree st"
    by (simp add: link_step_conv step_tree_dry)
  with Cons show ?case by (simp only: fix_loop_Cons) simp
qed

subsection \<open>The passes as a whole\<close>

lemma tree_print [simp]: "tree (print s w) = tree w"
  by (simp add: print_def)

lemma normalize_real_files_lists:
  assumes "normalize_real_files root dry_run w = Inr st"
  shows "changes st =
           map (\<lambda>p. (p, canonical p)) (filter (queued (tree w)) (rglob_jpg root (tree w)))"
    and "conflicts st =
           map (\<lambda>p. (p, canonical p)) (filter (conflicting (tree w)) (rglob_jpg root (tree w)))"
proof -
  let ?st0 = "\<lparr>tree = tree w, stdout = stdout w, changes = [], conflicts = []\<rparr>"
  let ?ps = "rglob_jpg root (tree w)"
  have jp: "\<forall>p\<in>set ?ps. jpg_path p" by (simp add: rglob_jpg_path)
  note sc = scan_real_files_conv [OF jp, of ?st0]
  from assms have "perform_renames dry_run (changes (scan_real_files ?ps ?st0))
      (scan_real_files ?ps ?st0) = Inr st"
    by (simp add: normalize_real_files_def Let_def)
  from perform_renames_lists [OF this] sc
  show "changes st = map (\<lambda>p. (p, canonical p)) (filter (queued (tree w)) ?ps)"
    and "conflicts st = map (\<lambda>p. (p, canonical p)) (filter (conflicting (tree w)) ?ps)"
    by simp_all
qed

lemma normalize_real_files_dry:
  "\<exists>st. normalize_real_files root True w = Inr st \<and> tree st = tree w"
proof -
  let ?st0 = "\<lparr>tree = tree w, stdout = stdout w, changes = [], conflicts = []\<rparr>"
  let ?ps = "rglob_jpg root (tree w)"
  have jp: "\<forall>p\<in>set ?ps. jpg_path p" by (simp add: rglob_jpg_path)
  note sc = scan_real_files_conv [OF jp, of ?st0]
  from perform_renames_dry [of "changes (scan_real_files ?ps ?st0)" "scan_real_files ?ps ?st0"] sc
  show ?thesis by (auto simp: normalize_real_files_def Let_def)
qed

lemma normalize_real_files_files:
  assumes "normalize_real_files root False w = Inr st" and "map_of (tree st) q = Some (File k)"
  shows "q \<in> snd ` set (changes st) \<or>
         (q \<notin> fst ` set (changes st) \<and> map_of (tree w) q = Some (File k))"
proof -
  let ?st0 = "\<lparr>tree = tree w, stdout = stdout w, changes = [], conflicts = []\<rparr>"
  let ?ps = "rglob_jpg root (tree w)"
  let ?sc = "scan_real_files ?ps ?st0"
  have jp: "\<forall>p\<in>set ?ps. jpg_path p" by (simp add: rglob_jpg_path)
  note sc = scan_real_files_conv [OF jp, of ?st0]
  from assms(1) have pr: "perform_renames False (changes ?sc) ?sc = Inr st"
    by (simp add: normalize_real_files_def Let_def)
  from perform_renames_lists [OF pr] have "changes st = changes ?sc" by simp
  with perform_renames_files [OF pr assms(2)] sc show ?thesis by simp
qed

lemma normalize_real_files_dirs:
  assumes "normalize_real_files root False w = Inr st"
  shows "map_of (tree st) q = Some (Dir d) \<longleftrightarrow> map_of (tree w) q = Some (Dir d)"
proof -
  let ?st0 = "\<lparr>tree = tree w, stdout = stdout w, changes = [], conflicts = []\<rparr>"
  let ?ps = "rglob_jpg root (tree w)"
  let ?sc = "scan_real_files ?ps ?st0"
  have jp: "\<forall>p\<in>set ?ps. jpg_path p" by (simp add: rglob_jpg_path)
  note sc = scan_real_files_conv [OF jp, of ?st0]
  from assms(1) have pr: "perform_renames False (changes ?sc) ?sc = Inr st"
    by (simp add: normalize_real_files_def Let_def)
  from perform_renames_dirs [OF pr, of q d] sc show ?thesis by simp
qed

lemma normalize_real_files_idle:
  assumes "\<forall>p\<in>set (rglob_jpg root (tree w)). \<not> candidate (tree w) p"
  shows "\<exists>st. normalize_real_files root dry_run w = Inr st \<and> tree st = tree w \<and>
           changes st = [] \<and> conflicts st = []"
proof -
  let ?st0 = "\<lparr>tree = tree w, stdout = stdout w, changes = [], conflicts = []\<rparr>"
  let ?ps = "rglob_jpg root (tree w)"
  let ?sc = "scan_real_files ?ps ?st0"
  have jp: "\<forall>p\<in>set ?ps. jpg_path p" by (simp add: rglob_jpg_path)
  note sc = scan_real_files_conv [OF jp, of ?st0]
  from assms have "filter (queued (tree w)) ?ps = []" "filter (conflicting (tree w)) ?ps = []"
    by (auto simp: queued_def conflicting_def filter_empty_conv)
  with sc have "changes ?sc = []" "conflicts ?sc = []" "tree ?sc = tree w" by simp_all
  then show ?thesis by (simp add: normalize_real_files_def Let_def)
qed

lemma fix_symlinks_conv:
  fixes root dry_run w
  defines "st \<equiv> fix_symlinks root dry_run w"
  defines "ps \<equiv> rglob_jpg root (tree w)"
  shows "fixed st = concat (map (step_fixed (tree w)) ps)"
    and "retargeted st = concat (map (step_retargeted dry_run (tree w)) ps)"
    and "broken st = concat (map (step_broken (tree w)) ps)"
    and "same_kind (tree w) (tree st)"
    and "map_of (tree st) q =
           (if q \<in> set ps then map_of (step_tree dry_run (tree w) q) q else map_of (tree w) q)"
proof -
  let ?st0 = "\<lparr>tree = tree w, stdout = stdout w, fixed = [], retargeted = [], broken = []\<rparr>"
  have "distinct ps" and "\<forall>p\<in>set ps. jpg_path p"
    by (simp_all add: ps_def rglob_jpg_distinct rglob_jpg_path)
  from fix_loop_conv [OF this, of "tree w" ?st0 dry_run]
  show "fixed st = concat (map (step_fixed (tree w)) ps)"
    and "retargeted st = concat (map (step_retargeted dry_run (tree w)) ps)"
    and "broken st = concat (map (step_broken (tree w)) ps)"
    and "same_kind (tree w) (tree st)"
    and "map_of (tree st) q =
           (if q \<in> set ps then map_of (step_tree dry_run (tree w) q) q else map_of (tree w) q)"
    by (simp_all add: st_def fix_symlinks_def ps_def same_kind_refl)
qed

lemma fix_loop_idle:
  assumes "\<forall>p\<in>set ps. jpg_path p \<and> step_tree dry_run (tree st) p = tree st"
  shows "tree (fix_loop dry_run ps st) = tree st"
  using assms
proof (induction ps arbitrary: st)
  case Nil
  show ?case by simp
next
  case (Cons p ps)
  then have t: "tree (link_step dry_run p st) = tree st" by (simp add: link_step_conv)
  with Cons.prems have "\<forall>q\<in>set ps. jpg_path q \<and>
      step_tree dry_run (tree (link_step dry_run p st)) q = tree (link_step dry_run p st)" by simp
  from Cons.IH [OF this] t show ?case by (simp only: fix_loop_Cons)
qed

lemma run_Inr:
  "run root apply fs = Inr (st1, st2) \<longleftrightarrow>
     \<not> isl (stat fs root) \<and>
     normalize_real_files root (\<not> apply)
       (print (''== Step 1: normalize real files under '' @ str_path root @
                 '' (dry_run='' @ str_bool (\<not> apply) @ '') =='')
          \<lparr>tree = fs, stdout = []\<rparr>) = Inr st1 \<and>
     st2 = fix_symlinks root (\<not> apply)
       (print (CHR 0x0A # ''== Step 2: fix symlinks to point to 6-digit files (dry_run=''
                 @ str_bool (\<not> apply) @ '') =='')
          \<lparr>tree = tree st1, stdout = stdout st1\<rparr>)"
  by (auto simp: run_def path_exists_conv Let_def split: sum.splits)

lemma stat_root:
  assumes "resolved_root fs root"
  shows "stat fs root = (case map_of fs root of None \<Rightarrow> Inl ENOENT | Some n \<Rightarrow> Inr n)"
proof (cases "root = []")
  case True
  then show ?thesis by (simp add: stat_def)
next
  case False
  with assms have "plain_name (last root)" by (simp add: resolved_root_def)
  from stat_plain [OF False this, of fs] assms show ?thesis
    by (auto simp: resolved_root_def split: option.splits node.splits)
qed

lemma is_dir_root:
  "resolved_root fs root \<Longrightarrow> is_dir fs root = Inr (\<exists>d. map_of fs root = Some (Dir d))"
  by (auto simp: is_dir_conv stat_root split: option.splits)

lemma exists_root: "resolved_root fs root \<Longrightarrow> isl (stat fs root) \<longleftrightarrow> map_of fs root = None"
  by (simp add: stat_root split: option.splits)

lemma link_verdict_Symlink:
  assumes "map_of fs p = Some (Symlink t)" and "extract_num6 (name_of p) = Some r"
  shows "link_verdict fs p =
     (if regular fs (canonical p)
      then (if t = name_of (canonical p) then Correct else Retarget (name_of (canonical p)))
      else Broken (Some t) (canonical p))"
  using assms by (simp add: link_verdict_def)

lemma link_verdict_Retarget:
  assumes "link_verdict fs p = Retarget rel"
  shows "\<exists>t r. map_of fs p = Some (Symlink t) \<and> extract_num6 (name_of p) = Some r \<and>
           regular fs (canonical p) \<and> t \<noteq> rel \<and> rel = name_of (canonical p)"
  using assms
  by (auto simp: link_verdict_def split: option.splits node.splits if_splits)

lemma candidate_same_kind: "same_kind fs fs' \<Longrightarrow> candidate fs' p = candidate fs p"
  by (simp add: candidate_def same_kind_regular)

lemma same_kind_None:
  assumes "same_kind fs fs'"
  shows "map_of fs' q = None \<longleftrightarrow> map_of fs q = None"
proof -
  from assms have "map_of fs' q = map_of fs q \<or>
      (\<exists>t t'. map_of fs q = Some (Symlink t) \<and> map_of fs' q = Some (Symlink t'))"
    by (simp add: same_kind_def)
  then show ?thesis by auto
qed

lemma same_kind_Dir:
  assumes "same_kind fs fs'"
  shows "map_of fs' q = Some (Dir d) \<longleftrightarrow> map_of fs q = Some (Dir d)"
proof -
  from assms have "map_of fs' q = map_of fs q \<or>
      (\<exists>t t'. map_of fs q = Some (Symlink t) \<and> map_of fs' q = Some (Symlink t'))"
    by (simp add: same_kind_def)
  then show ?thesis by auto
qed

text \<open>After the second pass has run, a second pass finds nothing to retarget.\<close>

lemma second_pass_settles:
  assumes m: "map_of fs2 p = map_of (step_tree False fs1 p) p"
    and sk: "same_kind fs1 fs2"
  shows "step_retargeted False fs2 p = [] \<and> step_tree False fs2 p = fs2 \<and>
         (step_broken fs1 p = [] \<longrightarrow> step_broken fs2 p = [])"
proof -
  note reg = same_kind_regular [OF sk]
  note dc = same_kind_dir_check [OF sk, of p]
  show ?thesis
  proof (cases "\<exists>rel. link_verdict fs1 p = Retarget rel \<and> dir_check fs1 p = None")
    case True
    then obtain rel where v1: "link_verdict fs1 p = Retarget rel" and d: "dir_check fs1 p = None"
      by blast
    from link_verdict_Retarget [OF v1] obtain t r where
      r: "extract_num6 (name_of p) = Some r" and rg: "regular fs1 (canonical p)"
      and rel: "rel = name_of (canonical p)" by blast
    from m v1 d have "map_of fs2 p = Some (Symlink rel)" by (simp add: step_tree_self)
    from link_verdict_Symlink [OF this r] rg rel have "link_verdict fs2 p = Correct"
      by (simp add: reg)
    then show ?thesis by (simp add: step_retargeted_def step_tree_def step_broken_def)
  next
    case False
    then have "map_of (step_tree False fs1 p) p = map_of fs1 p"
      by (cases "link_verdict fs1 p") (auto simp: step_tree_self)
    with m have "map_of fs2 p = map_of fs1 p" by simp
    from same_kind_verdict [OF sk this] have v: "link_verdict fs2 p = link_verdict fs1 p" .
    from False show ?thesis
      by (cases "link_verdict fs1 p")
        (auto simp: v dc step_retargeted_def step_tree_def step_broken_def)
  qed
qed

text \<open>After the first pass has run without a conflict, every real file it sees is settled.\<close>

lemma first_pass_settles:
  assumes n: "normalize_real_files root False w = Inr st"
    and cf: "conflicts st = []"
    and dir: "is_dir (tree w) root = Inr True"
    and sc: "in_scope root p"
  shows "\<not> candidate (tree st) p"
proof
  assume c: "candidate (tree st) p"
  then obtain k where k: "map_of (tree st) p = Some (File k)"
    by (auto simp: candidate_def regular_iff)
  let ?ps = "rglob_jpg root (tree w)"
  note ch = normalize_real_files_lists(1) [OF n]
  note cn = normalize_real_files_lists(2) [OF n]
  from normalize_real_files_files [OF n k]
  show False
  proof
    assume "p \<in> snd ` set (changes st)"
    then obtain p' where p': "p' \<in> set ?ps" "queued (tree w) p'" "p = canonical p'"
      by (auto simp: ch)
    then have jp: "jpg_path p'" by (simp add: rglob_jpg_path)
    from p' obtain r where r: "extract_num6 (name_of p') = Some r"
      by (auto simp: queued_def candidate_def)
    from canonical_idem(2) [OF jp r] c p'(3) show False by (simp add: candidate_def)
  next
    assume a: "p \<notin> fst ` set (changes st) \<and> map_of (tree w) p = Some (File k)"
    with dir sc have in_ps: "p \<in> set ?ps" by (simp add: rglob_jpg_set)
    from a c have "candidate (tree w) p" by (simp add: candidate_def regular_iff)
    then have "queued (tree w) p \<or> conflicting (tree w) p"
      by (auto simp: queued_def conflicting_def)
    then show False
    proof
      assume "queued (tree w) p"
      with in_ps have "(p, canonical p) \<in> set (changes st)" by (simp add: ch)
      then have "p \<in> fst ` set (changes st)" by force
      with a show False by simp
    next
      assume "conflicting (tree w) p"
      with in_ps have "(p, canonical p) \<in> set (conflicts st)" by (simp add: cn)
      with cf show False by simp
    qed
  qed
qed

lemma concat_map_Nil: "concat (map f xs) = [] \<longleftrightarrow> (\<forall>x\<in>set xs. f x = [])"
  by (induction xs) auto






lemma fix_symlinks_dry_tree: "tree (fix_symlinks root True w) = tree w"
  unfolding fix_symlinks_def
  using fix_loop_dry_tree [of "rglob_jpg root (tree w)"
      "\<lparr>tree = tree w, stdout = stdout w, fixed = [], retargeted = [], broken = []\<rparr>"]
  by (simp add: rglob_jpg_path)

lemma filter_step_retargeted:
  "filter (\<lambda>x. dir_check fs (fst x) = None) (step_retargeted True fs p) =
     step_retargeted False fs p"
  by (cases "link_verdict fs p") (simp_all add: step_retargeted_def)

lemma filter_retargeted:
  "filter (\<lambda>x. dir_check fs (fst x) = None) (concat (map (step_retargeted True fs) ps)) =
     concat (map (step_retargeted False fs) ps)"
  by (induction ps) (simp_all add: filter_step_retargeted)

lemma extract_num6_long:
  assumes "extract_num6 name = Some r" and "6 < length r"
  shows "999999 < nat_of_digits r"
proof -
  let ?v = "nat_of_digits (filter is_digit name)"
  have r: "r = zero_fill 6 (str_nat ?v)" by (rule extract_num6_Some [OF assms(1)])
  with assms(2) have "\<not> length (str_nat ?v) \<le> 6" by (auto simp: zero_fill_def)
  then have "\<not> ?v < 10 ^ 6" using length_str_nat_le [of 6 ?v] by simp
  moreover have "nat_of_digits r = ?v"
    by (simp add: r nat_of_digits_zero_fill nat_of_digits_str_nat)
  ultimately show ?thesis by simp
qed

lemma queued_canonical:
  assumes "jpg_path p" and "candidate fs p"
  shows "\<exists>n. extract_num6 (name_of p) = Some n \<and> canonical p = with_name p (n @ ''.jpg'')"
proof -
  from assms(2) obtain n where n: "extract_num6 (name_of p) = Some n"
    by (auto simp: candidate_def)
  with canonical_Some [OF assms(1) n] show ?thesis by simp
qed

lemma step_retargeted_name:
  assumes "jpg_path p" and "x \<in> set (step_retargeted dry_run fs p)"
  shows "\<exists>n. extract_num6 (name_of (fst x)) = Some n \<and> snd x = n @ ''.jpg''"
proof (cases "link_verdict fs p")
  case (Retarget rel)
  from link_verdict_Retarget [OF this] obtain n where
    n: "extract_num6 (name_of p) = Some n" and rel: "rel = name_of (canonical p)" by blast
  from assms(2) Retarget have x: "x = (p, rel)"
    by (auto simp: step_retargeted_def split: if_splits)
  from canonical_Some [OF assms(1) n] rel have "rel = n @ ''.jpg''" by simp
  with x n show ?thesis by simp
qed (use assms(2) in \<open>simp_all add: step_retargeted_def\<close>)

lemma step_broken_name:
  assumes "jpg_path p" and "x \<in> set (step_broken fs p)"
  shows "\<exists>n. extract_num6 (name_of (fst x)) = Some n \<and>
           snd (snd x) = with_name (fst x) (n @ ''.jpg'')"
proof (cases "link_verdict fs p")
  case (Broken cur c)
  then obtain n where n: "extract_num6 (name_of p) = Some n" and c: "c = canonical p"
    by (auto simp: link_verdict_def split: option.splits node.splits if_splits)
  from assms(2) Broken have x: "x = (p, cur, c)" by (simp add: step_broken_def)
  from canonical_Some [OF assms(1) n] c x n show ?thesis by simp
qed (use assms(2) in \<open>simp_all add: step_broken_def\<close>)


subsection \<open>Evaluating the program on a given tree\<close>

lemmas fs_eval =
  run_def path_exists_def stat_def is_dir_def is_file_def is_symlink_def lstat_def
  ignore_error_def rglob_jpg_def fnmatch_jpg_def name_of_def normalize_real_files_def
  real_entry_def try_bind_def with_name_def suffix_of_def lower_def lower_char_def
  os_rename_def dir_check_def parent_def fix_symlinks_def link_entry_def retarget_link_def
  os_readlink_def os_unlink_def os_symlink_def relpath_def print_def str_path_def str_bool_def
  quote_def num6_eval

section \<open>Running twice\<close>

text \<open>
  Claim C6.  Take a tree and its resolved root.  When a first run with \<open>--apply\<close>
  completes with no conflict and no broken link, a second run with \<open>--apply\<close> on the
  tree it leaves completes as well, renames nothing and retargets nothing: a file that
  bears its canonical name and a link that points at the right relative target yield
  no such record.  The second run finds no conflict and no broken link either, and
  leaves the tree as it found it.
\<close>

theorem second_run_changes_nothing:
  assumes rr: "resolved_root fs root"
    and run1: "run root True fs = Inr (st1, st2)"
    and cf: "conflicts st1 = []"
    and br: "broken st2 = []"
  shows "\<exists>st1' st2'. run root True (tree st2) = Inr (st1', st2') \<and>
           changes st1' = [] \<and> conflicts st1' = [] \<and>
           retargeted st2' = [] \<and> broken st2' = [] \<and> tree st2' = tree st2"
proof -
  define w0 where "w0 = print (''== Step 1: normalize real files under '' @ str_path root @
      '' (dry_run='' @ str_bool False @ '') =='') \<lparr>tree = fs, stdout = []\<rparr>"
  define w1 where "w1 = print (CHR 0x0A #
      ''== Step 2: fix symlinks to point to 6-digit files (dry_run='' @ str_bool False @ '') =='')
      \<lparr>tree = tree st1, stdout = stdout st1\<rparr>"
  from run1 have ex: "\<not> isl (stat fs root)"
    and n1: "normalize_real_files root False w0 = Inr st1"
    and s2: "st2 = fix_symlinks root False w1"
    by (simp_all add: run_Inr w0_def w1_def)
  let ?fs1 = "tree st1" and ?fs2 = "tree st2"
  have tw0: "tree w0 = fs" and tw1: "tree w1 = ?fs1" by (simp_all add: w0_def w1_def)
  note f2 = fix_symlinks_conv [where root=root and dry_run=False and w=w1, folded s2, unfolded tw1]
  note sk12 = f2(4)
  have root_same: "map_of ?fs2 root = map_of fs root"
  proof (cases "map_of fs root")
    case None
    with ex rr show ?thesis by (simp add: exists_root)
  next
    case (Some n)
    show ?thesis
    proof (cases n)
      case (Symlink t)
      with Some rr show ?thesis by (simp add: resolved_root_def)
    next
      case (Dir d)
      with Some normalize_real_files_dirs [OF n1, of root d] same_kind_Dir [OF sk12, of root d]
      show ?thesis by (simp add: tw0)
    next
      case (File k)
      with Some rr have "is_dir fs root \<noteq> Inr True" by (simp add: is_dir_root)
      then have e0: "rglob_jpg root fs = []" by (simp add: rglob_jpg_def)
      then have "\<forall>p\<in>set (rglob_jpg root (tree w0)). \<not> candidate (tree w0) p"
        by (simp add: tw0)
      from normalize_real_files_idle [OF this, of False] n1 have t1: "?fs1 = fs"
        by (auto simp: tw0)
      from rr Some File have "is_dir ?fs1 root \<noteq> Inr True" by (simp add: t1 is_dir_root)
      then have "rglob_jpg root ?fs1 = []" by (simp add: rglob_jpg_def)
      with f2(5) [of root] show ?thesis by (simp add: t1)
    qed
  qed
  from rr root_same have rr2: "resolved_root ?fs2 root" by (simp add: resolved_root_def)
  from ex rr rr2 root_same have ex2: "\<not> isl (stat ?fs2 root)" by (simp add: exists_root)
  define w0' where "w0' = print (''== Step 1: normalize real files under '' @ str_path root @
      '' (dry_run='' @ str_bool False @ '') =='') \<lparr>tree = ?fs2, stdout = []\<rparr>"
  have tw0': "tree w0' = ?fs2" by (simp add: w0'_def)
  have settled: "\<forall>p\<in>set (rglob_jpg root ?fs2). \<not> candidate ?fs2 p"
  proof
    fix p assume p: "p \<in> set (rglob_jpg root ?fs2)"
    then have d2: "is_dir ?fs2 root = Inr True" and sc: "in_scope root p"
      by (simp_all add: rglob_jpg_set)
    from d2 rr rr2 root_same have d0: "is_dir (tree w0) root = Inr True"
      by (simp add: is_dir_root tw0)
    from first_pass_settles [OF n1 cf d0 sc] have "\<not> candidate ?fs1 p" .
    then show "\<not> candidate ?fs2 p" by (simp add: candidate_same_kind [OF sk12])
  qed
  then have "\<forall>p\<in>set (rglob_jpg root (tree w0')). \<not> candidate (tree w0') p"
    by (simp add: tw0')
  from normalize_real_files_idle [OF this, of False] obtain st1' where
    n2: "normalize_real_files root False w0' = Inr st1'" and t1': "tree st1' = ?fs2"
    and c1': "changes st1' = []" "conflicts st1' = []" by (auto simp: tw0')
  define w1' where "w1' = print (CHR 0x0A #
      ''== Step 2: fix symlinks to point to 6-digit files (dry_run='' @ str_bool False @ '') =='')
      \<lparr>tree = tree st1', stdout = stdout st1'\<rparr>"
  define st2' where "st2' = fix_symlinks root False w1'"
  have tw1': "tree w1' = ?fs2" by (simp add: t1' w1'_def)
  note f2' = fix_symlinks_conv [where root=root and dry_run=False and w=w1',
      folded st2'_def, unfolded tw1']
  have each: "step_retargeted False ?fs2 p = [] \<and> step_tree False ?fs2 p = ?fs2 \<and>
              step_broken ?fs2 p = []" if p: "p \<in> set (rglob_jpg root ?fs2)" for p
  proof -
    from p have d2: "is_dir ?fs2 root = Inr True" and sc: "in_scope root p"
      and ne: "map_of ?fs2 p \<noteq> None" by (simp_all add: rglob_jpg_set)
    from d2 rr2 obtain d where "map_of ?fs2 root = Some (Dir d)" by (auto simp: is_dir_root)
    with same_kind_Dir [OF sk12, of root d] have "map_of ?fs1 root = Some (Dir d)" by simp
    moreover from this rr have "resolved_root ?fs1 root" by (simp add: resolved_root_def)
    ultimately have d1: "is_dir ?fs1 root = Inr True" by (simp add: is_dir_root)
    from ne same_kind_None [OF sk12, of p] have "map_of ?fs1 p \<noteq> None" by simp
    with d1 sc have p1: "p \<in> set (rglob_jpg root ?fs1)" by (simp add: rglob_jpg_set)
    with f2(5) [of p] have m: "map_of ?fs2 p = map_of (step_tree False ?fs1 p) p" by simp
    from br f2(3) p1 have "step_broken ?fs1 p = []" by (simp add: concat_map_Nil)
    with second_pass_settles [OF m sk12] show ?thesis by simp
  qed
  have r2: "retargeted st2' = []" and b2: "broken st2' = []"
    using each by (simp_all add: f2'(2,3) concat_map_Nil)
  have "tree st2' = tree \<lparr>tree = tree w1', stdout = stdout w1', fixed = [], retargeted = [],
      broken = []\<rparr>"
    unfolding st2'_def fix_symlinks_def
    by (rule fix_loop_idle) (simp add: tw1' each rglob_jpg_path)
  then have t2: "tree st2' = ?fs2" by (simp add: tw1')
  from ex2 n2 have "run root True ?fs2 = Inr (st1', st2')"
    by (simp add: run_Inr w0'_def w1'_def st2'_def)
  with c1' r2 b2 t2 show ?thesis by blast
qed

theorem second_run_changes_nothing_witness:
  "resolved_root tree_renamed_target [''data''] \<and>
   map_sum id (\<lambda>r. (conflicts (fst r), broken (snd r), tree (snd r)))
     (run [''data''] True tree_renamed_target) = Inr ([], [], tree_renamed_target_after) \<and>
   map_sum id (\<lambda>r. (changes (fst r), conflicts (fst r), retargeted (snd r), broken (snd r),
                      tree (snd r)))
     (run [''data''] True tree_renamed_target_after) =
     Inr ([], [], [], [], tree_renamed_target_after)"
proof -
  have rr: "resolved_root tree_renamed_target [''data'']"
    by (simp add: resolved_root_def plain_name_def tree_renamed_target_def)
  have e: "map_sum id (\<lambda>r. (conflicts (fst r), broken (snd r), tree (snd r)))
     (run [''data''] True tree_renamed_target) = Inr ([], [], tree_renamed_target_after)"
    by (simp add: tree_renamed_target_def tree_renamed_target_after_def fs_eval)
  then obtain st1 st2 where r: "run [''data''] True tree_renamed_target = Inr (st1, st2)"
    and c: "conflicts st1 = []" and b: "broken st2 = []"
    and t: "tree st2 = tree_renamed_target_after"
    by (cases "run [''data''] True tree_renamed_target") auto
  from second_run_changes_nothing [OF rr r c b] t
  have "map_sum id (\<lambda>r. (changes (fst r), conflicts (fst r), retargeted (snd r), broken (snd r),
                      tree (snd r)))
     (run [''data''] True tree_renamed_target_after) =
     Inr ([], [], [], [], tree_renamed_target_after)" by auto
  with rr e show ?thesis by simp
qed

section \<open>The decision of the second pass\<close>



section \<open>Preview and apply\<close>

text \<open>
  Claim C5 says that a run without \<open>--apply\<close> yields the same five counts as a run with
  \<open>--apply\<close> on the same tree.  It does not: with \<open>--apply\<close> the second pass starts
  from the tree the first pass has renamed, in preview from the tree as it was.  Below,
  a link names the canonical file that the first pass is about to create: the preview
  counts it as broken, the run with \<open>--apply\<close> as already correct.
\<close>

theorem preview_counts_differ:
  "map_sum id counts (run [''data''] False tree_renamed_target) = Inr (1, 0, 0, 0, 1) \<and>
   map_sum id counts (run [''data''] True tree_renamed_target) = Inr (1, 0, 1, 0, 0) \<and>
   map_sum id counts (run [''data''] False tree_renamed_target) \<noteq>
     map_sum id counts (run [''data''] True tree_renamed_target)"
proof -
  have a: "map_sum id counts (run [''data''] False tree_renamed_target) = Inr (1, 0, 0, 0, 1)"
    by (simp add: tree_renamed_target_def counts_def fs_eval)
  have b: "map_sum id counts (run [''data''] True tree_renamed_target) = Inr (1, 0, 1, 0, 0)"
    by (simp add: tree_renamed_target_def counts_def fs_eval)
  from a b show ?thesis by simp
qed

text \<open>
  Claim C5, amended.  A run without \<open>--apply\<close> changes nothing in the tree, in either
  pass.  It records the renames and the conflicts that a run with \<open>--apply\<close> on the
  same tree records.  Its second pass classifies the links as the second pass with
  \<open>--apply\<close> does when started on the same tree: the same links already correct, the
  same links broken, and as retargets with \<open>--apply\<close> those of the preview whose
  directory lets the link be replaced.
\<close>

theorem preview_mutates_nothing:
  assumes "run root False fs = Inr (a, b)"
  shows "tree a = fs \<and> tree b = fs \<and>
         (\<forall>a' b'. run root True fs = Inr (a', b') \<longrightarrow>
            changes a' = changes a \<and> conflicts a' = conflicts a) \<and>
         (\<forall>w. tree w = fs \<longrightarrow>
            fixed (fix_symlinks root False w) = fixed b \<and>
            broken (fix_symlinks root False w) = broken b \<and>
            retargeted (fix_symlinks root False w) =
              filter (\<lambda>x. dir_check fs (fst x) = None) (retargeted b))"
proof -
  define w0 where "w0 = print (''== Step 1: normalize real files under '' @ str_path root @
      '' (dry_run='' @ str_bool True @ '') =='') \<lparr>tree = fs, stdout = []\<rparr>"
  define w1 where "w1 = print (CHR 0x0A #
      ''== Step 2: fix symlinks to point to 6-digit files (dry_run='' @ str_bool True @ '') =='')
      \<lparr>tree = tree a, stdout = stdout a\<rparr>"
  from assms have n: "normalize_real_files root True w0 = Inr a"
    and b: "b = fix_symlinks root True w1"
    by (simp_all add: run_Inr w0_def w1_def)
  have tw0: "tree w0 = fs" by (simp add: w0_def)
  from normalize_real_files_dry [of root w0] n have ta: "tree a = fs" by (auto simp: tw0)
  have tw1: "tree w1 = fs" by (simp add: w1_def ta)
  have tb: "tree b = fs" by (simp add: b fix_symlinks_dry_tree tw1)
  have lists: "changes a' = changes a \<and> conflicts a' = conflicts a"
    if r: "run root True fs = Inr (a', b')" for a' b'
  proof -
    define v0 where "v0 = print (''== Step 1: normalize real files under '' @ str_path root @
        '' (dry_run='' @ str_bool False @ '') =='') \<lparr>tree = fs, stdout = []\<rparr>"
    from r have n': "normalize_real_files root False v0 = Inr a'"
      by (simp add: run_Inr v0_def)
    have tv0: "tree v0 = fs" by (simp add: v0_def)
    from normalize_real_files_lists [OF n] normalize_real_files_lists [OF n']
    show ?thesis by (simp add: tw0 tv0)
  qed
  have links: "fixed (fix_symlinks root False w) = fixed b \<and>
      broken (fix_symlinks root False w) = broken b \<and>
      retargeted (fix_symlinks root False w) =
        filter (\<lambda>x. dir_check fs (fst x) = None) (retargeted b)"
    if w: "tree w = fs" for w
  proof -
    note p = fix_symlinks_conv [where root=root and dry_run=True and w=w1, folded b, unfolded tw1]
    note q = fix_symlinks_conv [where root=root and dry_run=False and w=w, unfolded w]
    show ?thesis
      unfolding p(1) p(2) p(3) q(1) q(2) q(3) by (simp add: filter_retargeted)
  qed
  from ta tb lists links show ?thesis by blast
qed

theorem preview_mutates_nothing_witness:
  "map_sum id (\<lambda>r. (tree (fst r), tree (snd r), retargeted (snd r)))
     (run [''data''] False tree_readonly_link) =
     Inr (tree_readonly_link, tree_readonly_link,
          [([''data'', ''ro'', ''x5.jpg''], ''000005.jpg''),
           ([''data'', ''y7.jpg''], ''000007.jpg'')]) \<and>
   retargeted (fix_symlinks [''data''] False \<lparr>tree = tree_readonly_link, stdout = []\<rparr>) =
     [([''data'', ''y7.jpg''], ''000007.jpg'')]"
proof -
  have e: "map_sum id (\<lambda>r. retargeted (snd r)) (run [''data''] False tree_readonly_link) =
     Inr [([''data'', ''ro'', ''x5.jpg''], ''000005.jpg''), ([''data'', ''y7.jpg''], ''000007.jpg'')]"
    by (simp add: tree_readonly_link_def fs_eval)
  then obtain a b where r: "run [''data''] False tree_readonly_link = Inr (a, b)"
    and rb: "retargeted b =
      [([''data'', ''ro'', ''x5.jpg''], ''000005.jpg''), ([''data'', ''y7.jpg''], ''000007.jpg'')]"
    by (cases "run [''data''] False tree_readonly_link") auto
  note t = preview_mutates_nothing [OF r]
  from t have ta: "tree a = tree_readonly_link" and tb: "tree b = tree_readonly_link"
    by simp_all
  from t have "retargeted (fix_symlinks [''data''] False
        \<lparr>tree = tree_readonly_link, stdout = []\<rparr>) =
      filter (\<lambda>x. dir_check tree_readonly_link (fst x) = None) (retargeted b)"
    by simp
  also have "\<dots> = [([''data'', ''y7.jpg''], ''000007.jpg'')]"
    by (simp add: rb) (simp add: tree_readonly_link_def dir_check_def parent_def)
  finally show ?thesis using r ta tb rb by simp
qed

section \<open>The shape of canonical names\<close>

text \<open>
  Claim C8.  \<open>extract_num6\<close> returns \<open>None\<close> or a string of decimal digits of length
  at least 6, longer than 6 only when the integer it denotes exceeds 999999.  Every
  canonical path the two passes compute has such a value, followed by \<open>.jpg\<close>, as its
  name: the new path of a rename and of a conflict, the relative target of a retarget,
  the expected path of a broken link.
\<close>

theorem canonical_basenames:
  "(extract_num6 name = Some r \<longrightarrow>
      list_all is_digit r \<and> 6 \<le> length r \<and> (6 < length r \<longrightarrow> 999999 < nat_of_digits r)) \<and>
   (normalize_real_files root dry_run w = Inr st \<longrightarrow>
      (\<forall>x \<in> set (changes st) \<union> set (conflicts st).
         \<exists>n. extract_num6 (name_of (fst x)) = Some n \<and> snd x = with_name (fst x) (n @ ''.jpg''))) \<and>
   (\<forall>x \<in> set (retargeted (fix_symlinks root dry_run w)).
      \<exists>n. extract_num6 (name_of (fst x)) = Some n \<and> snd x = n @ ''.jpg'') \<and>
   (\<forall>x \<in> set (broken (fix_symlinks root dry_run w)).
      \<exists>n. extract_num6 (name_of (fst x)) = Some n \<and>
          snd (snd x) = with_name (fst x) (n @ ''.jpg''))"
proof (intro conjI impI ballI)
  assume "extract_num6 name = Some r"
  from extract_num6_all_digits [OF this]
  show "list_all is_digit r" and "6 \<le> length r" by simp_all
next
  assume "extract_num6 name = Some r" and "6 < length r"
  then show "999999 < nat_of_digits r" by (rule extract_num6_long)
next
  fix x
  assume n: "normalize_real_files root dry_run w = Inr st"
    and x: "x \<in> set (changes st) \<union> set (conflicts st)"
  from x normalize_real_files_lists [OF n]
  obtain p where p: "p \<in> set (rglob_jpg root (tree w))" "candidate (tree w) p"
    and xp: "x = (p, canonical p)"
    by (auto simp: queued_def conflicting_def)
  from queued_canonical [OF rglob_jpg_path [OF p(1)] p(2)] xp
  show "\<exists>n. extract_num6 (name_of (fst x)) = Some n \<and> snd x = with_name (fst x) (n @ ''.jpg'')"
    by simp
next
  fix x
  assume "x \<in> set (retargeted (fix_symlinks root dry_run w))"
  then obtain p where "p \<in> set (rglob_jpg root (tree w))"
    and "x \<in> set (step_retargeted dry_run (tree w) p)"
    by (auto simp: fix_symlinks_conv(2))
  then show "\<exists>n. extract_num6 (name_of (fst x)) = Some n \<and> snd x = n @ ''.jpg''"
    by (intro step_retargeted_name [of p x dry_run "tree w"]) (simp_all add: rglob_jpg_path)
next
  fix x
  assume "x \<in> set (broken (fix_symlinks root dry_run w))"
  then obtain p where "p \<in> set (rglob_jpg root (tree w))"
    and "x \<in> set (step_broken (tree w) p)"
    by (auto simp: fix_symlinks_conv(3))
  then show "\<exists>n. extract_num6 (name_of (fst x)) = Some n \<and>
      snd (snd x) = with_name (fst x) (n @ ''.jpg'')"
    by (intro step_broken_name [of p x "tree w"]) (simp_all add: rglob_jpg_path)
qed

theorem canonical_basenames_witness:
  "extract_num6 ''a1234567.jpg'' = Some ''1234567'' \<and>
   list_all is_digit ''1234567'' \<and> 6 < length ''1234567'' \<and>
   999999 < nat_of_digits ''1234567'' \<and>
   map_sum id changes
     (normalize_real_files [''data''] True \<lparr>tree = tree_same_digits, stdout = []\<rparr>) =
     Inr [([''data'', ''a1.jpg''], [''data'', ''000001.jpg'']),
          ([''data'', ''b1.jpg''], [''data'', ''000001.jpg''])] \<and>
   (\<exists>n. extract_num6 (name_of [''data'', ''a1.jpg'']) = Some n \<and>
        [''data'', ''000001.jpg''] = with_name [''data'', ''a1.jpg''] (n @ ''.jpg'')) \<and>
   retargeted (fix_symlinks [''data''] True \<lparr>tree = tree_three_links, stdout = []\<rparr>) =
     [([''data'', ''x5.jpg''], ''000005.jpg'')] \<and>
   (\<exists>n. extract_num6 (name_of [''data'', ''x5.jpg'']) = Some n \<and> ''000005.jpg'' = n @ ''.jpg'') \<and>
   broken (fix_symlinks [''data''] True \<lparr>tree = tree_three_links, stdout = []\<rparr>) =
     [([''data'', ''z9.jpg''], Some ''000009.jpg'', [''data'', ''000009.jpg''])] \<and>
   (\<exists>n. extract_num6 (name_of [''data'', ''z9.jpg'']) = Some n \<and>
        [''data'', ''000009.jpg''] = with_name [''data'', ''z9.jpg''] (n @ ''.jpg''))"
proof -
  let ?w1 = "\<lparr>tree = tree_same_digits, stdout = []\<rparr>"
  let ?w2 = "\<lparr>tree = tree_three_links, stdout = []\<rparr>"
  have e: "extract_num6 ''a1234567.jpg'' = Some ''1234567''" by (simp add: num6_eval)
  have l: "6 < length ''1234567''" by simp
  from canonical_basenames [of "''a1234567.jpg''" "''1234567''"] e l
  have d: "list_all is_digit ''1234567''" and v: "999999 < nat_of_digits ''1234567''"
    by simp_all
  have c: "map_sum id changes (normalize_real_files [''data''] True ?w1) =
     Inr [([''data'', ''a1.jpg''], [''data'', ''000001.jpg'']),
          ([''data'', ''b1.jpg''], [''data'', ''000001.jpg''])]"
    by (simp add: tree_same_digits_def fs_eval)
  then obtain st where n: "normalize_real_files [''data''] True ?w1 = Inr st"
    and cs: "changes st = [([''data'', ''a1.jpg''], [''data'', ''000001.jpg'']),
          ([''data'', ''b1.jpg''], [''data'', ''000001.jpg''])]"
    by (cases "normalize_real_files [''data''] True ?w1") auto
  from canonical_basenames [of _ _ "[''data'']" True ?w1 st] n cs
  have c': "\<exists>n. extract_num6 (name_of [''data'', ''a1.jpg'']) = Some n \<and>
        [''data'', ''000001.jpg''] = with_name [''data'', ''a1.jpg''] (n @ ''.jpg'')"
    by simp
  have r: "retargeted (fix_symlinks [''data''] True ?w2) =
     [([''data'', ''x5.jpg''], ''000005.jpg'')]"
    and b: "broken (fix_symlinks [''data''] True ?w2) =
     [([''data'', ''z9.jpg''], Some ''000009.jpg'', [''data'', ''000009.jpg''])]"
    by (simp_all add: tree_three_links_def fs_eval)
  from canonical_basenames [of _ _ "[''data'']" True ?w2] r b
  have r': "\<exists>n. extract_num6 (name_of [''data'', ''x5.jpg'']) = Some n \<and> ''000005.jpg'' = n @ ''.jpg''"
    and b': "\<exists>n. extract_num6 (name_of [''data'', ''z9.jpg'']) = Some n \<and>
        [''data'', ''000009.jpg''] = with_name [''data'', ''z9.jpg''] (n @ ''.jpg'')"
    by simp_all
  from e d l v c c' r r' b b' show ?thesis by (intro conjI)
qed

section \<open>The summary\<close>



section \<open>Where the code departs from its own intent\<close>

subsection \<open>Renames that overwrite\<close>

text \<open>
  Claim C3 says that a rename is queued only when nothing stands at the new path, and
  hence that no rename overwrites an entry; the comment in the source says the same
  (``if target exists, avoid overwrite, keep existing and record conflict'').  The
  code tests \<open>newp.exists()\<close> during the scan, before any rename is applied, and
  \<open>exists()\<close> follows links.  In the tree below the canonical path \<open>000001.jpg\<close>
  is a dangling link, and two real files have the digits \<open>1\<close>.  With \<open>--apply\<close> the
  first pass records no conflict, queues both renames and applies them: the link is
  replaced by the first file, and that one by the second.  One entry is left where
  there were three.
\<close>

theorem rename_overwrites_entries:
  "map_of tree_same_digits [''data'', ''000001.jpg''] = Some (Symlink ''missing.jpg'') \<and>
   map_sum id (\<lambda>st. (changes st, conflicts st, tree st))
     (normalize_real_files [''data''] False \<lparr>tree = tree_same_digits, stdout = []\<rparr>) =
   Inr ([([''data'', ''a1.jpg''], [''data'', ''000001.jpg'']),
         ([''data'', ''b1.jpg''], [''data'', ''000001.jpg''])],
        [],
        [([], Dir True), ([''data''], Dir True), ([''data'', ''000001.jpg''], File 2)])"
  by (simp add: tree_same_digits_def fs_eval)

subsection \<open>A rename that fails\<close>

text \<open>
  Claim C4 says that an exception raised for one entry, also while a queued rename is
  applied, is caught and logged and that the run goes on.  The loop that applies the
  renames has no handler.  In the first tree below a real file lies in a directory
  without write permission: \<open>old.rename(new)\<close> raises, and \<open>main\<close> ends with that
  exception before the second pass and the summary.  The second pass does catch the
  same failure: in the second tree replacing the link in such a directory fails, the
  error is logged with the path, and the next link is retargeted.
\<close>

theorem failed_rename_aborts_run:
  "main [''data''] True tree_readonly_file =
     Inl (Uncaught (OSError EACCES
            (quote ''/data/ro/a1.jpg'' @ '' -> '' @ quote ''/data/ro/000001.jpg''))) \<and>
   stdout (fix_symlinks [''data''] False \<lparr>tree = tree_readonly_link, stdout = []\<rparr>) =
     [''[RETARGET][LINK] /data/ro/x5.jpg -> 000005.jpg'',
      ''[ERROR][LINK] /data/ro/x5.jpg: [Errno 13] Permission denied: '' @
        quote ''/data/ro/x5.jpg'',
      ''[RETARGET][LINK] /data/y7.jpg -> 000007.jpg''] \<and>
   retargeted (fix_symlinks [''data''] False \<lparr>tree = tree_readonly_link, stdout = []\<rparr>) =
     [([''data'', ''y7.jpg''], ''000007.jpg'')]"
proof -
  have a: "main [''data''] True tree_readonly_file =
     Inl (Uncaught (OSError EACCES
            (quote ''/data/ro/a1.jpg'' @ '' -> '' @ quote ''/data/ro/000001.jpg'')))"
    by (simp add: tree_readonly_file_def main_def fs_eval)
  have b: "fix_symlinks [''data''] False \<lparr>tree = tree_readonly_link, stdout = []\<rparr> =
     \<lparr>tree = [([], Dir True), ([''data''], Dir True), ([''data'', ''ro''], Dir False),
               ([''data'', ''ro'', ''000005.jpg''], File 2),
               ([''data'', ''ro'', ''x5.jpg''], Symlink ''/old/5.jpg''),
               ([''data'', ''000007.jpg''], File 3),
               ([''data'', ''y7.jpg''], Symlink ''000007.jpg'')],
      stdout = [''[RETARGET][LINK] /data/ro/x5.jpg -> 000005.jpg'',
                ''[ERROR][LINK] /data/ro/x5.jpg: [Errno 13] Permission denied: '' @
                  quote ''/data/ro/x5.jpg'',
                ''[RETARGET][LINK] /data/y7.jpg -> 000007.jpg''],
      fixed = [], retargeted = [([''data'', ''y7.jpg''], ''000007.jpg'')], broken = []\<rparr>"
    by (simp add: tree_readonly_link_def fs_eval str_error_def errno_number_def strerror_def
        str_nat.simps digit_char_def)
  show ?thesis unfolding b using a by simp
qed

subsection \<open>A link removed by the first pass\<close>

text \<open>
  Claim C10 says that the first pass never renames, removes or retargets a link.  It
  skips links as sources, but a rename replaces what stands at its target, and the
  test \<open>newp.exists()\<close> does not see a dangling link there.  In the tree below the
  link \<open>000001.jpg\<close> is gone after the first pass with \<open>--apply\<close>: a regular file
  stands in its place.
\<close>

theorem rename_replaces_symlink:
  "map_of tree_dangling_link [''data'', ''000001.jpg''] = Some (Symlink ''gone.jpg'') \<and>
   map_sum id (\<lambda>st. (changes st, conflicts st, tree st))
     (normalize_real_files [''data''] False \<lparr>tree = tree_dangling_link, stdout = []\<rparr>) =
   Inr ([([''data'', ''a1.jpg''], [''data'', ''000001.jpg''])], [],
        [([], Dir True), ([''data''], Dir True), ([''data'', ''000001.jpg''], File 1)])"
  by (simp add: tree_dangling_link_def fs_eval)

end
